theory Spec2Isabelle
  imports Main "HOL-Library.Word"
begin

section \<open>EEPROM file-system control panel (gui.py)\<close>

text \<open>
  A shallow embedding of \<^verbatim>\<open>gui.py\<close>: the text utilities, the serial client and the
  file operations of the window. A Python \<^verbatim>\<open>str\<close> is a \<^typ>\<open>string\<close> (a list of
  characters, code points 0 to 255), a Python \<^verbatim>\<open>bytes\<close> value is a list of 8-bit words.
\<close>

subsection \<open>Characters and configuration\<close>

type_synonym byte = "8 word"

abbreviation BSL :: char where "BSL \<equiv> CHR 0x5C"
abbreviation LF :: char where "LF \<equiv> CHR 0x0A"
abbreviation CR :: char where "CR \<equiv> CHR 0x0D"

definition FILE_COUNT :: nat where
  "FILE_COUNT = 3"

subsection \<open>Utilities\<close>

text \<open>
  \<^verbatim>\<open>s.replace(old, new)\<close> for a pattern \<^verbatim>\<open>old\<close> of one character: every occurrence
  of the character is replaced, the other characters are kept.
\<close>

definition replace_chr :: "char \<Rightarrow> string \<Rightarrow> string \<Rightarrow> string" where
  "replace_chr old new s = concat (map (\<lambda>c. if c = old then new else [c]) s)"

text \<open>
  \<^verbatim>\<open>s.replace('\\', '\\\\').replace('\n', '\\n').replace('\r', '\\r')\<close>: three passes
  over the text, the backslash pass first.
\<close>

definition escape_for_arduino :: "string \<Rightarrow> string" where
  "escape_for_arduino s =
     replace_chr CR [BSL, CHR ''r''] (replace_chr LF [BSL, CHR ''n''] (replace_chr BSL [BSL, BSL] s))"

text \<open>
  The \<^verbatim>\<open>while i < len(s)\<close> loop of \<^verbatim>\<open>unescape_from_arduino\<close>, with its list
  \<^verbatim>\<open>out\<close> and its index \<^verbatim>\<open>i\<close>.
\<close>

function unescape_loop :: "string \<Rightarrow> string \<Rightarrow> nat \<Rightarrow> string" where
  "unescape_loop s out i =
     (if i < length s then
        (if s ! i = BSL \<and> i + 1 < length s then
           (let nxt = s ! (i + 1) in
              unescape_loop s
                (out @ [if nxt = CHR ''n'' then LF
                        else if nxt = CHR ''r'' then CR
                        else if nxt = BSL then BSL
                        else nxt])
                (i + 2))
         else unescape_loop s (out @ [s ! i]) (i + 1))
      else out)"
  by pat_completeness auto
termination
  by (relation "measure (\<lambda>(s, out, i). length s - i)") auto

declare unescape_loop.simps [simp del]

definition unescape_from_arduino :: "string \<Rightarrow> string" where
  "unescape_from_arduino s = unescape_loop s [] 0"

text \<open>
  \<^verbatim>\<open>''.join(chr(x) if 32 <= x <= 126 or x in (10,) else '' for x in b)\<close>.
\<close>

definition chr :: "byte \<Rightarrow> char" where
  "chr x = char_of (unat x)"

definition bytes_to_text :: "byte list \<Rightarrow> string" where
  "bytes_to_text b =
     concat (map (\<lambda>x. if (32 \<le> x \<and> x \<le> 126) \<or> x \<in> {10} then [chr x] else []) b)"

subsection \<open>Python's string operations, as the file operations use them\<close>

datatype py_error = IndexError | ValueError | SerialException

text \<open>
  \<^verbatim>\<open>str.isspace\<close> on one character, for the code points below 256: the characters
  that \<^verbatim>\<open>strip()\<close>, \<^verbatim>\<open>split()\<close> and \<^verbatim>\<open>int()\<close> treat as white space.
\<close>

definition isspace :: "char \<Rightarrow> bool" where
  "isspace c \<longleftrightarrow>
     c \<in> {CHR 0x09, CHR 0x0A, CHR 0x0B, CHR 0x0C, CHR 0x0D, CHR 0x1C, CHR 0x1D, CHR 0x1E,
          CHR 0x1F, CHR 0x20, CHR 0x85, CHR 0xA0}"

text \<open>\<^verbatim>\<open>s.strip()\<close> and \<^verbatim>\<open>s.rstrip('\n')\<close>.\<close>

definition strip :: "string \<Rightarrow> string" where
  "strip s = rev (dropWhile isspace (rev (dropWhile isspace s)))"

definition rstrip_lf :: "string \<Rightarrow> string" where
  "rstrip_lf s = rev (dropWhile (\<lambda>c. c = LF) (rev s))"

text \<open>
  \<^verbatim>\<open>s.splitlines()\<close>: a line ends at a line boundary (for the code points below 256:
  line feed, carriage return, a carriage return and line feed pair, vertical tab, form
  feed, the three separators 0x1C to 0x1E and next line 0x85) or at the end of the text;
  the boundaries are dropped, and a text that ends with a boundary has no empty last line.
\<close>

definition is_linebreak :: "char \<Rightarrow> bool" where
  "is_linebreak c \<longleftrightarrow>
     c \<in> {CHR 0x0A, CHR 0x0D, CHR 0x0B, CHR 0x0C, CHR 0x1C, CHR 0x1D, CHR 0x1E, CHR 0x85}"

fun splitlines_from :: "string \<Rightarrow> string \<Rightarrow> string list" where
  "splitlines_from cur [] = (if cur = [] then [] else [cur])"
| "splitlines_from cur (c # cs) =
     (if c = CR then
        (case cs of
           [] \<Rightarrow> [cur]
         | d # ds \<Rightarrow> if d = LF then cur # splitlines_from [] ds else cur # splitlines_from [] cs)
      else if is_linebreak c then cur # splitlines_from [] cs
      else splitlines_from (cur @ [c]) cs)"

definition splitlines :: "string \<Rightarrow> string list" where
  "splitlines s = splitlines_from [] s"

text \<open>\<^verbatim>\<open>s.startswith(p)\<close>.\<close>

definition startswith :: "string \<Rightarrow> string \<Rightarrow> bool" where
  "startswith s p \<longleftrightarrow> take (length p) s = p"

text \<open>
  \<^verbatim>\<open>s.split(sep, 1)\<close> and \<^verbatim>\<open>s.split(sep)\<close> for a separator of one character, and
  \<^verbatim>\<open>s.split()\<close>, which splits at runs of white space and gives no empty word.
\<close>

definition split_once :: "char \<Rightarrow> string \<Rightarrow> string list" where
  "split_once sep s =
     (if sep \<in> set s
      then [takeWhile (\<lambda>c. c \<noteq> sep) s, tl (dropWhile (\<lambda>c. c \<noteq> sep) s)]
      else [s])"

fun split_chr :: "char \<Rightarrow> string \<Rightarrow> string list" where
  "split_chr sep [] = [[]]"
| "split_chr sep (c # cs) =
     (if c = sep then [] # split_chr sep cs
      else (case split_chr sep cs of
              [] \<Rightarrow> [[c]]
            | w # ws \<Rightarrow> (c # w) # ws))"

fun split_words_from :: "string \<Rightarrow> string \<Rightarrow> string list" where
  "split_words_from cur [] = (if cur = [] then [] else [cur])"
| "split_words_from cur (c # cs) =
     (if isspace c then
        (if cur = [] then split_words_from [] cs else cur # split_words_from [] cs)
      else split_words_from (cur @ [c]) cs)"

definition split_words :: "string \<Rightarrow> string list" where
  "split_words s = split_words_from [] s"

text \<open>\<^verbatim>\<open>xs[i]\<close> for \<^verbatim>\<open>i\<close> not negative: an index out of range raises IndexError.\<close>

definition item :: "'a list \<Rightarrow> nat \<Rightarrow> py_error + 'a" where
  "item xs i = (if i < length xs then Inr (xs ! i) else Inl IndexError)"

text \<open>
  \<^verbatim>\<open>str(n)\<close> and the \<^verbatim>\<open>{n}\<close> of an f-string, for an integer: the decimal digits, after
  a minus sign when the integer is negative.
\<close>

definition digit_chr :: "nat \<Rightarrow> char" where
  "digit_chr d = char_of (48 + d)"

function str_nat :: "nat \<Rightarrow> string" where
  "str_nat n = (if n < 10 then [digit_chr n] else str_nat (n div 10) @ [digit_chr (n mod 10)])"
  by pat_completeness auto
termination
  by (relation "measure (\<lambda>n. n)") auto

declare str_nat.simps [simp del]

definition str_int :: "int \<Rightarrow> string" where
  "str_int i = (if i < 0 then CHR ''-'' # str_nat (nat (- i)) else str_nat (nat i))"

text \<open>
  \<^verbatim>\<open>int(s)\<close> on a text: white space around the number is skipped; the number is an
  optional sign and decimal digits, where single underscores may stand between digits.
  Anything else raises ValueError, and so does a number of more than 4300 digits (the
  default of \<^verbatim>\<open>sys.int_max_str_digits\<close>). The white space that \<^verbatim>\<open>int\<close> skips is
  tab, line feed, vertical tab, form feed, carriage return and space, and of the code
  points from 128 on the two that are white space, 0x85 and 0xA0; the separators 0x1C
  to 0x1F, which \<^verbatim>\<open>strip()\<close> removes, are not skipped.
\<close>

definition int_space :: "char \<Rightarrow> bool" where
  "int_space c \<longleftrightarrow>
     c \<in> {CHR 0x09, CHR 0x0A, CHR 0x0B, CHR 0x0C, CHR 0x0D, CHR 0x20, CHR 0x85, CHR 0xA0}"

definition int_strip :: "string \<Rightarrow> string" where
  "int_strip s = rev (dropWhile int_space (rev (dropWhile int_space s)))"

definition is_digit :: "char \<Rightarrow> bool" where
  "is_digit c \<longleftrightarrow> (48::nat) \<le> of_char c \<and> (of_char c :: nat) \<le> 57"

definition digit_val :: "char \<Rightarrow> int" where
  "digit_val c = int (of_char c) - 48"

fun underscores_ok :: "string \<Rightarrow> bool" where
  "underscores_ok [] = True"
| "underscores_ok [c] = (c \<noteq> CHR ''_'')"
| "underscores_ok (c # d # r) = (\<not> (c = CHR ''_'' \<and> d = CHR ''_'') \<and> underscores_ok (d # r))"

definition decimal :: "string \<Rightarrow> int" where
  "decimal ds = foldl (\<lambda>a c. 10 * a + digit_val c) 0 ds"

definition int_digits :: "string \<Rightarrow> py_error + int" where
  "int_digits body =
     (if body = [] \<or> hd body = CHR ''_'' \<or> \<not> underscores_ok body
         \<or> \<not> list_all (\<lambda>c. is_digit c \<or> c = CHR ''_'') body
         \<or> 4300 < length (filter is_digit body)
      then Inl ValueError
      else Inr (decimal (filter is_digit body)))"

definition py_int :: "string \<Rightarrow> py_error + int" where
  "py_int s =
     (case int_strip s of
        [] \<Rightarrow> Inl ValueError
      | c # cs \<Rightarrow>
          if c = CHR ''-'' then (case int_digits cs of Inl e \<Rightarrow> Inl e | Inr v \<Rightarrow> Inr (- v))
          else if c = CHR ''+'' then int_digits cs
          else int_digits (c # cs))"

subsection \<open>The listing\<close>

text \<open>
  The body of the \<^verbatim>\<open>try\<close> in \<^verbatim>\<open>refresh_files\<close>: the name and the size of one line,
  or the exception that the bare \<^verbatim>\<open>except\<close> swallows.
\<close>

definition parse_line :: "string \<Rightarrow> py_error + (string \<times> int)" where
  "parse_line ln =
     (case item (split_once CHR '':'' ln) 1 of
        Inl e \<Rightarrow> Inl e
      | Inr after_colon \<Rightarrow>
     (case item (split_chr CHR ''('' after_colon) 0 of
        Inl e \<Rightarrow> Inl e
      | Inr before_paren \<Rightarrow>
     (let name = strip before_paren in
     (case item (split_chr CHR ''('' ln) 1 of
        Inl e \<Rightarrow> Inl e
      | Inr after_paren \<Rightarrow>
     (case item (split_words after_paren) 0 of
        Inl e \<Rightarrow> Inl e
      | Inr word \<Rightarrow>
     (case py_int word of
        Inl e \<Rightarrow> Inl e
      | Inr s \<Rightarrow> Inr (name, s)))))))"

text \<open>
  The inner loop \<^verbatim>\<open>for ln in lines\<close> for the slot \<^verbatim>\<open>i\<close>, with its variables
  \<^verbatim>\<open>label\<close> and \<^verbatim>\<open>size\<close>: the first line that starts with \<^verbatim>\<open>f"{i+1}:"\<close> is parsed
  and ends the loop, whether the parse succeeds or not.
\<close>

fun scan_lines :: "nat \<Rightarrow> string \<Rightarrow> int \<Rightarrow> string list \<Rightarrow> string \<times> int" where
  "scan_lines i label sz [] = (label, sz)"
| "scan_lines i label sz (ln # lns) =
     (if startswith ln (str_nat (i + 1) @ '':'') then
        (case parse_line ln of
           Inr (name, s) \<Rightarrow> (name, s)
         | Inl e \<Rightarrow> (label, sz))
      else scan_lines i label sz lns)"

text \<open>
  \<^verbatim>\<open>[ln.strip() for ln in txt.splitlines() if ln.strip()]\<close>.
\<close>

definition listing_lines :: "string \<Rightarrow> string list" where
  "listing_lines txt = map strip (filter (\<lambda>ln. strip ln \<noteq> []) (splitlines txt))"

subsection \<open>The serial client\<close>

text \<open>
  What the program does to the serial port and to the clock, in the order in which it
  does it; durations are in milliseconds. \<open>SerialOpen\<close> is the call
  \<^verbatim>\<open>serial.Serial(port, baud, timeout=timeout)\<close>, \<open>SerialRead\<close> a call
  \<^verbatim>\<open>ser.read(avail)\<close> with the bytes it returned, \<open>Sleep\<close> a call of
  \<^verbatim>\<open>time.sleep\<close>.
\<close>

datatype effect =
    SerialOpen string nat nat
  | SerialClose
  | ResetInputBuffer
  | SerialWrite "byte list"
  | SerialRead "byte list"
  | Sleep nat

text \<open>The pyserial object held in \<^verbatim>\<open>self.ser\<close>, with its attribute \<^verbatim>\<open>is_open\<close>.\<close>

record serial =
  ser_is_open :: bool

text \<open>
  \<^verbatim>\<open>SerialClient\<close>. Beside the attributes of the class, the record carries the
  effects performed so far (\<open>trace\<close>, oldest first) and what the device will deliver
  (\<open>incoming\<close>): one entry for each coming read window of \<^verbatim>\<open>send_line\<close>, which lists,
  for each turn of the polling loop inside the window, the bytes waiting at that turn
  (none: \<^verbatim>\<open>in_waiting\<close> is 0). The clock and \<^verbatim>\<open>READ_TIMEOUT\<close> (0.5 s) decide how
  many turns a window has.
\<close>

record client =
  port :: string
  baud :: nat
  timeout :: nat
  ser :: "serial option"
  trace :: "effect list"
  incoming :: "byte list list list"

definition PORT_DEFAULT :: string where
  "PORT_DEFAULT = ''COM9''"

definition BAUD :: nat where
  "BAUD = 9600"

definition SerialClient :: "string \<Rightarrow> byte list list list \<Rightarrow> client" where
  "SerialClient p dev =
     \<lparr>port = p, baud = BAUD, timeout = 100, ser = None, trace = [], incoming = dev\<rparr>"

definition perform :: "effect \<Rightarrow> client \<Rightarrow> client" where
  "perform e c = c\<lparr>trace := trace c @ [e]\<rparr>"

definition close :: "client \<Rightarrow> client" where
  "close c =
     (let c1 = (case ser c of
                  Some s \<Rightarrow> if ser_is_open s then perform SerialClose c else c
                | None \<Rightarrow> c)
      in c1\<lparr>ser := None\<rparr>)"

text \<open>
  \<^verbatim>\<open>connect\<close>; \<open>opens\<close> tells whether \<^verbatim>\<open>serial.Serial\<close> can open the port. When
  it cannot, the exception leaves \<^verbatim>\<open>connect\<close> after the old connection was closed.
\<close>

definition connect :: "client \<Rightarrow> bool \<Rightarrow> (py_error + unit) \<times> client" where
  "connect c opens =
     (let c1 = (if ser c \<noteq> None then close c else c) in
      if \<not> opens then (Inl SerialException, c1)
      else
        (let c2 = (perform (SerialOpen (port c1) (baud c1) (timeout c1)) c1)
                    \<lparr>ser := Some \<lparr>ser_is_open = True\<rparr>\<rparr>;
             c3 = perform (Sleep 150) c2;
             c4 = perform ResetInputBuffer c3
         in (Inr (), c4)))"

definition is_open :: "client \<Rightarrow> bool" where
  "is_open c = (case ser c of None \<Rightarrow> False | Some s \<Rightarrow> ser_is_open s)"

text \<open>
  \<^verbatim>\<open>text.encode('utf-8', errors='ignore')\<close> for code points below 256: one byte below
  128, two bytes from 128 on.
\<close>

definition encode_utf8 :: "string \<Rightarrow> byte list" where
  "encode_utf8 s =
     concat (map (\<lambda>c. let n = (of_char c :: nat) in
                        if n < 128 then [word_of_nat n]
                        else [word_of_nat (192 + n div 64), word_of_nat (128 + n mod 64)]) s)"

text \<open>
  The polling loop of \<^verbatim>\<open>send_line\<close> over the turns of one read window: a turn with
  bytes waiting reads them all, a turn without sleeps 10 ms.
\<close>

fun poll :: "byte list list \<Rightarrow> byte list \<Rightarrow> client \<Rightarrow> byte list \<times> client" where
  "poll [] buf c = (buf, c)"
| "poll (avail # turns) buf c =
     (if avail \<noteq> [] then poll turns (buf @ avail) (perform (SerialRead avail) c)
      else poll turns buf (perform (Sleep 10) c))"

definition send_line :: "client \<Rightarrow> string \<Rightarrow> byte list \<times> client" where
  "send_line c line =
     (if \<not> is_open c then ([], c)
      else
        (let c1 = perform ResetInputBuffer c;
             c2 = perform (SerialWrite (encode_utf8 (line @ [LF]))) c1;
             window = (case incoming c2 of [] \<Rightarrow> [] | w # ws \<Rightarrow> w);
             c3 = c2\<lparr>incoming := tl (incoming c2)\<rparr>
         in poll window [] c3))"

subsection \<open>The window and its file operations\<close>

text \<open>
  The part of \<^verbatim>\<open>ModernEEPROM\<close> that the file operations read and write: the client,
  the rows of the tree (item id, name, size), the index of the selected row
  (\<^verbatim>\<open>_get_selected_index\<close>: none, or the item id of the row read as an integer), the
  text in the editor, the label above it, and the status text that \<^verbatim>\<open>_set_status\<close>
  writes to both status labels.
\<close>

record app =
  client :: client
  tree :: "(string \<times> string \<times> string) list"
  selection :: "nat option"
  editor :: string
  filename_label :: string
  status :: string

text \<open>
  \<^verbatim>\<open>self.editor.get('1.0', 'end')\<close>: a Tk text widget gives its text followed by the
  line feed that always ends it.
\<close>

definition editor_get :: "app \<Rightarrow> string" where
  "editor_get a = editor a @ [LF]"

text \<open>One turn of \<^verbatim>\<open>for i in range(FILE_COUNT)\<close> in \<^verbatim>\<open>refresh_files\<close>.\<close>

definition slot_row :: "string list \<Rightarrow> nat \<Rightarrow> string \<times> string \<times> string" where
  "slot_row lines i =
     (case scan_lines i ''(empty)'' 0 lines of
        (label, sz) \<Rightarrow> (str_nat (i + 1), label, str_int sz @ '' B''))"

definition insert_slot :: "string list \<Rightarrow> app \<Rightarrow> nat \<Rightarrow> app" where
  "insert_slot lines a i = a\<lparr>tree := tree a @ [slot_row lines i]\<rparr>"

definition refresh_files :: "app \<Rightarrow> app" where
  "refresh_files a =
     (if \<not> is_open (client a) then a
      else
        (case send_line (client a) ''LIST'' of
           (raw, c1) \<Rightarrow>
             (let txt = bytes_to_text raw;
                  lines = listing_lines txt;
                  a1 = a\<lparr>client := c1, tree := [], selection := None\<rparr>
              in foldl (insert_slot lines) a1 [0..<FILE_COUNT])))"

definition read_selected :: "app \<Rightarrow> app" where
  "read_selected a =
     (case selection a of
        None \<Rightarrow> a
      | Some idx \<Rightarrow>
          if \<not> is_open (client a) then a
          else
            (case send_line (client a) (''READ '' @ str_nat idx) of
               (raw, c1) \<Rightarrow>
                 (let text = unescape_from_arduino (bytes_to_text raw);
                      a1 = a\<lparr>client := c1, editor := text\<rparr>
                  in (case find (\<lambda>row. fst row = str_nat idx) (tree a1) of
                        Some (iid, name, sz) \<Rightarrow>
                          a1\<lparr>filename_label := str_nat idx @ '': '' @ name\<rparr>
                      | None \<Rightarrow> a1\<lparr>filename_label := str_nat idx\<rparr>))))"

definition write_selected :: "app \<Rightarrow> app" where
  "write_selected a =
     (case selection a of
        None \<Rightarrow> a
      | Some idx \<Rightarrow>
          if \<not> is_open (client a) then a
          else
            (let text = rstrip_lf (editor_get a);
                 escaped = escape_for_arduino text
             in (case send_line (client a) (''WRITE '' @ str_nat idx @ '' '' @ escaped) of
                   (raw, c1) \<Rightarrow>
                     refresh_files
                       (a\<lparr>client := perform (Sleep 20) c1,
                          status := ''Wrote file '' @ str_nat idx\<rparr>))))"

text \<open>
  \<^verbatim>\<open>rename_selected\<close>; \<open>answer\<close> is what the dialog \<^verbatim>\<open>askstring\<close> returns once
  it is shown: the text entered, or nothing when the dialog is cancelled.
\<close>

definition rename_selected :: "app \<Rightarrow> string option \<Rightarrow> app" where
  "rename_selected a answer =
     (case selection a of
        None \<Rightarrow> a
      | Some idx \<Rightarrow>
          if \<not> is_open (client a) then a
          else
            (case answer of
               None \<Rightarrow> a
             | Some newname \<Rightarrow>
                 if newname = [] then a
                 else
                   (case send_line (client a)
                           (''WRITE_NAME '' @ str_nat idx @ '' '' @ take 9 newname) of
                      (raw, c1) \<Rightarrow>
                        refresh_files
                          (a\<lparr>client := perform (Sleep 20) c1,
                             status := ''Renamed file '' @ str_nat idx\<rparr>))))"

text \<open>
  \<^verbatim>\<open>delete_selected\<close>; \<open>yes\<close> is the answer of the dialog \<^verbatim>\<open>askyesno\<close> once it
  is shown.
\<close>

definition delete_selected :: "app \<Rightarrow> bool \<Rightarrow> app" where
  "delete_selected a yes =
     (case selection a of
        None \<Rightarrow> a
      | Some idx \<Rightarrow>
          if \<not> is_open (client a) then a
          else if \<not> yes then a
          else
            (case send_line (client a) (''DELETE '' @ str_nat idx) of
               (raw, c1) \<Rightarrow>
                 refresh_files
                   (a\<lparr>client := c1, editor := [],
                      status := ''Deleted file '' @ str_nat idx\<rparr>)))"

subsection \<open>Notions for the statements\<close>

text \<open>
  A window as it is after a successful \<^verbatim>\<open>connect\<close> on the default port, with a given
  selection, editor text and device.
\<close>

definition connected_app :: "nat option \<Rightarrow> string \<Rightarrow> byte list list list \<Rightarrow> app" where
  "connected_app sel text dev =
     \<lparr>client = snd (connect (SerialClient PORT_DEFAULT dev) True), tree = [],
      selection = sel, editor = text, filename_label = ''No file selected'',
      status = ''Ready''\<rparr>"

text \<open>The same window after \<^verbatim>\<open>close\<close>, as the Disconnect button leaves it.\<close>

definition disconnected_app :: "nat option \<Rightarrow> string \<Rightarrow> byte list list list \<Rightarrow> app" where
  "disconnected_app sel text dev =
     (connected_app sel text dev)\<lparr>client := close (client (connected_app sel text dev))\<rparr>"

text \<open>The listing of three slots, the second one empty.\<close>

definition listing_example :: string where
  "listing_example =
     ''1: notes (12 bytes)'' @ [LF] @ ''2: (empty)'' @ [LF] @ ''3: todo (5 bytes)''"

text \<open>The characters that \<^verbatim>\<open>bytes_to_text\<close> keeps beside the line feed.\<close>

definition is_printable :: "char \<Rightarrow> bool" where
  "is_printable c \<longleftrightarrow> (32::nat) \<le> of_char c \<and> (of_char c :: nat) \<le> 126"

text \<open>The byte strings written to the port, in order.\<close>

fun written :: "effect list \<Rightarrow> byte list list" where
  "written [] = []"
| "written (SerialWrite b # es) = b # written es"
| "written (e # es) = written es"

subsection \<open>Auxiliary notions for the proofs\<close>

text \<open>
  What the loop of \<^verbatim>\<open>unescape_from_arduino\<close> appends for the character after a
  backslash, and the loop read as a recursion over the remaining text. Both serve the
  proofs only; \<open>unescape_loop_list\<close> below relates them to the loop.
\<close>

definition decode_escape :: "char \<Rightarrow> char" where
  "decode_escape nxt =
     (if nxt = CHR ''n'' then LF else if nxt = CHR ''r'' then CR
      else if nxt = BSL then BSL else nxt)"

fun unescape_list :: "string \<Rightarrow> string" where
  "unescape_list [] = []"
| "unescape_list [c] = [c]"
| "unescape_list (c # d # r) =
     (if c = BSL then decode_escape d # unescape_list r else c # unescape_list (d # r))"

text \<open>The number of backslashes a text ends with.\<close>

definition trailing_backslashes :: "string \<Rightarrow> nat" where
  "trailing_backslashes s = length (takeWhile (\<lambda>c. c = BSL) (rev s))"

section \<open>Properties\<close>

subsection \<open>The loop of unescape_from_arduino\<close>

lemma unescape_list_plain: "c \<noteq> BSL \<Longrightarrow> unescape_list (c # t) = c # unescape_list t"
  by (cases t) simp_all

lemma unescape_loop_list:
  "i \<le> length s \<Longrightarrow> unescape_loop s out i = out @ unescape_list (drop i s)"
proof (induction s out i rule: unescape_loop.induct)
  case (1 s out i)
  show ?case
  proof (cases "i < length s")
    case False
    with "1.prems" show ?thesis by (subst unescape_loop.simps) simp
  next
    case lt: True
    show ?thesis
    proof (cases "s ! i = BSL \<and> i + 1 < length s")
      case True
      then have d: "drop i s = BSL # s ! (i + 1) # drop (i + 2) s"
        using lt by (metis Cons_nth_drop_Suc Suc_eq_plus1 add_2_eq_Suc')
      have "unescape_loop s out i =
          unescape_loop s (out @ [decode_escape (s ! (i + 1))]) (i + 2)"
        using lt True by (subst unescape_loop.simps) (simp add: decode_escape_def Let_def)
      also have "\<dots> = (out @ [decode_escape (s ! (i + 1))]) @ unescape_list (drop (i + 2) s)"
      proof -
        have "i + 2 \<le> length s" using True by simp
        then show ?thesis
          unfolding decode_escape_def by (rule "1.IH"(1)[OF lt True refl])
      qed
      finally show ?thesis by (simp add: d)
    next
      case False
      have d: "drop i s = s ! i # drop (i + 1) s"
        using lt by (simp add: Cons_nth_drop_Suc)
      have "unescape_loop s out i = unescape_loop s (out @ [s ! i]) (i + 1)"
        by (subst unescape_loop.simps) (simp only: lt False if_True if_False)
      also have "\<dots> = (out @ [s ! i]) @ unescape_list (drop (i + 1) s)"
        using "1.IH"(2)[OF lt False] lt by simp
      finally have e: "unescape_loop s out i = out @ s ! i # unescape_list (drop (i + 1) s)"
        by simp
      have "unescape_list (drop i s) = s ! i # unescape_list (drop (i + 1) s)"
      proof (cases "s ! i = BSL")
        case True
        with False have "drop (i + 1) s = []" by simp
        then show ?thesis by (simp add: d)
      next
        case False
        then show ?thesis by (simp add: d unescape_list_plain)
      qed
      with e show ?thesis by simp
    qed
  qed
qed

lemma unescape_from_arduino_list: "unescape_from_arduino s = unescape_list s"
  by (simp add: unescape_from_arduino_def unescape_loop_list)

subsection \<open>The three passes of escape_for_arduino\<close>

lemma replace_chr_append:
  "replace_chr old new (a @ b) = replace_chr old new a @ replace_chr old new b"
  by (simp add: replace_chr_def)

lemma replace_chr_Nil: "replace_chr old new [] = []"
  by (simp add: replace_chr_def)

lemma replace_chr_Cons:
  "replace_chr old new (c # s) = (if c = old then new else [c]) @ replace_chr old new s"
  by (simp add: replace_chr_def)

lemma escape_Nil: "escape_for_arduino [] = []"
  by (simp add: escape_for_arduino_def replace_chr_Nil)

lemma escape_Cons:
  "escape_for_arduino (c # s) =
     (if c = BSL then [BSL, BSL] else if c = LF then [BSL, CHR ''n'']
      else if c = CR then [BSL, CHR ''r''] else [c]) @ escape_for_arduino s"
  by (simp add: escape_for_arduino_def replace_chr_Cons replace_chr_append replace_chr_Nil)

lemma unescape_list_escape: "unescape_list (escape_for_arduino s) = s"
proof (induction s)
  case Nil
  show ?case by (simp add: escape_Nil)
next
  case (Cons c s)
  show ?case
  proof (cases "escape_for_arduino s")
    case Nil
    with Cons show ?thesis by (simp add: escape_Cons decode_escape_def)
  next
    case (Cons a r)
    with Cons.IH show ?thesis by (simp add: escape_Cons decode_escape_def)
  qed
qed

text \<open>
  C1. Escaping a text and unescaping the result gives the text back. The law holds for
  every text, so in particular for the texts made of printable characters, line feeds
  and carriage returns.
\<close>

theorem escape_round_trip: "unescape_from_arduino (escape_for_arduino s) = s"
  by (simp add: unescape_from_arduino_list unescape_list_escape)

text \<open>
  C6. A backslash followed by the letter n and a single line feed are escaped to
  different texts (backslash, backslash, n and backslash, n), and each escaped text
  unescapes to its original: the backslash pass runs before the line feed pass.
\<close>

theorem escape_ordering:
  "escape_for_arduino [BSL, CHR ''n''] = [BSL, BSL, CHR ''n''] \<and>
   escape_for_arduino [LF] = [BSL, CHR ''n''] \<and>
   escape_for_arduino [BSL, CHR ''n''] \<noteq> escape_for_arduino [LF] \<and>
   unescape_from_arduino (escape_for_arduino [BSL, CHR ''n'']) = [BSL, CHR ''n''] \<and>
   unescape_from_arduino (escape_for_arduino [LF]) = [LF]"
  by (simp add: escape_Cons escape_Nil unescape_from_arduino_list decode_escape_def)

subsection \<open>Backslashes at the end of a text\<close>

lemma trailing_backslashes_Cons:
  "trailing_backslashes (c # s) =
     (if \<forall>x\<in>set s. x = BSL then (if c = BSL then Suc (length s) else length s)
      else trailing_backslashes s)"
  by (simp add: trailing_backslashes_def takeWhile_append)

lemma trailing_backslashes_all:
  "\<forall>x\<in>set s. x = BSL \<Longrightarrow> trailing_backslashes s = length s"
proof -
  assume "\<forall>x\<in>set s. x = BSL"
  then have t: "takeWhile (\<lambda>c. c = BSL) (rev s) = rev s"
    by (simp add: takeWhile_eq_all_conv)
  show "trailing_backslashes s = length s"
    unfolding trailing_backslashes_def t by simp
qed

lemma trailing_backslashes_escape:
  "even (trailing_backslashes (BSL # d # r)) \<Longrightarrow> even (trailing_backslashes r)"
  by (auto simp: trailing_backslashes_Cons trailing_backslashes_all split: if_splits)

lemma trailing_backslashes_plain:
  "c \<noteq> BSL \<Longrightarrow> even (trailing_backslashes (c # s)) \<Longrightarrow> even (trailing_backslashes s)"
  by (auto simp: trailing_backslashes_Cons trailing_backslashes_all split: if_splits)

lemma unescape_list_append:
  "even (trailing_backslashes s) \<Longrightarrow>
     unescape_list (s @ t) = unescape_list s @ unescape_list t"
proof (induction s rule: unescape_list.induct)
  case 1
  show ?case by simp
next
  case (2 c)
  then have "c \<noteq> BSL" by (auto simp: trailing_backslashes_def split: if_splits)
  then show ?case by (simp add: unescape_list_plain)
next
  case (3 c d r)
  show ?case
  proof (cases "c = BSL")
    case True
    with 3 show ?thesis using trailing_backslashes_escape by simp
  next
    case False
    with "3.prems" have "even (trailing_backslashes (d # r))"
      using trailing_backslashes_plain by blast
    with False "3.IH"(2) show ?thesis by simp
  qed
qed

text \<open>
  C7. Where the scan meets a backslash that has a character after it (the text before
  it, \<open>p\<close>, ends with an even number of backslashes, so the backslash is not itself the
  second character of an escape), the pair gives a line feed for n, a carriage return
  for r, a backslash for a backslash and the second character itself otherwise; no
  character is an error. A backslash that is met as the last character of the text is
  copied to the output.
\<close>

theorem unescape_permissive:
  "(even (trailing_backslashes p) \<longrightarrow>
      unescape_from_arduino (p @ BSL # c # r) =
        unescape_from_arduino p @
          (if c = CHR ''n'' then LF else if c = CHR ''r'' then CR
           else if c = BSL then BSL else c) # unescape_from_arduino r) \<and>
   (even (trailing_backslashes s) \<longrightarrow>
      unescape_from_arduino (s @ [BSL]) = unescape_from_arduino s @ [BSL])"
  by (simp add: unescape_from_arduino_list unescape_list_append decode_escape_def)

theorem unescape_permissive_witness:
  "unescape_from_arduino (''a'' @ BSL # CHR ''q'' # ''z'') = ''aqz'' \<and>
   unescape_from_arduino (''a'' @ BSL # CHR ''n'' # ''z'') = ''a'' @ [LF] @ ''z'' \<and>
   unescape_from_arduino (''ab'' @ [BSL]) = ''ab'' @ [BSL]"
  using unescape_permissive [where p = "''a''" and c = "CHR ''q''" and r = "''z''" and s = "''ab''"]
    unescape_permissive [where p = "''a''" and c = "CHR ''n''" and r = "''z''" and s = "''ab''"]
  by (simp add: trailing_backslashes_def unescape_from_arduino_list decode_escape_def)

subsection \<open>The filter of bytes_to_text\<close>

lemma chr_code: "of_char (chr x) = unat x"
proof -
  have "unat x < 256" using unsigned_less [of x] by simp
  then show ?thesis by (simp add: chr_def)
qed

text \<open>
  C3. The text is made of exactly the bytes 32 to 126 and 10 of the input, in their
  order: it is the characters of the kept bytes, and reading the code points of the
  text gives the kept bytes back. Every other byte is dropped, as NUL and DEL are in
  the bytes of H, e, NUL, LF, DEL, l, l, o.
\<close>

theorem bytes_to_text_filter:
  "bytes_to_text b = map chr (filter (\<lambda>x. (32 \<le> x \<and> x \<le> 126) \<or> x = 10) b) \<and>
   map (\<lambda>c. word_of_nat (of_char c)) (bytes_to_text b) =
     filter (\<lambda>x. (32 \<le> x \<and> x \<le> 126) \<or> x = 10) b \<and>
   bytes_to_text [72, 101, 0, 10, 127, 108, 108, 111] = ''He'' @ [LF] @ ''llo''"
proof (intro conjI)
  show f: "bytes_to_text b = map chr (filter (\<lambda>x. (32 \<le> x \<and> x \<le> 126) \<or> x = 10) b)"
    by (induction b) (simp_all add: bytes_to_text_def)
  show "map (\<lambda>c. word_of_nat (of_char c)) (bytes_to_text b) =
     filter (\<lambda>x. (32 \<le> x \<and> x \<le> 126) \<or> x = 10) b"
    unfolding f by (induction b) (simp_all add: chr_code)
  show "bytes_to_text [72, 101, 0, 10, 127, 108, 108, 111] = ''He'' @ [LF] @ ''llo''"
    by (simp add: bytes_to_text_def chr_def char_of_eq_iff)
qed

subsection \<open>The decimal digits of a slot number\<close>

lemma digit_chr_values:
  "digit_chr 0 = CHR ''0''" "digit_chr 1 = CHR ''1''" "digit_chr 2 = CHR ''2''"
  "digit_chr 3 = CHR ''3''" "digit_chr 4 = CHR ''4''" "digit_chr 5 = CHR ''5''"
  "digit_chr 6 = CHR ''6''" "digit_chr 7 = CHR ''7''" "digit_chr 8 = CHR ''8''"
  "digit_chr 9 = CHR ''9''"
  by (simp_all add: digit_chr_def char_of_eq_iff)

lemma of_char_digit_chr: "d < 10 \<Longrightarrow> (of_char (digit_chr d) :: nat) = 48 + d"
  by (simp add: digit_chr_def)

lemma is_digit_digit_chr: "d < 10 \<Longrightarrow> is_digit (digit_chr d)"
  by (simp add: is_digit_def of_char_digit_chr)

lemma digit_val_digit_chr: "d < 10 \<Longrightarrow> digit_val (digit_chr d) = int d"
  by (simp add: digit_val_def of_char_digit_chr)

lemma str_nat_digit: "n < 10 \<Longrightarrow> str_nat n = [digit_chr n]"
  by (simp add: str_nat.simps)

lemma str_nat_digits: "c \<in> set (str_nat n) \<Longrightarrow> is_digit c"
proof (induction n arbitrary: c rule: str_nat.induct)
  case (1 n)
  show ?case
  proof (cases "n < 10")
    case True
    with "1.prems" show ?thesis by (simp add: str_nat_digit is_digit_digit_chr)
  next
    case False
    then have "str_nat n = str_nat (n div 10) @ [digit_chr (n mod 10)]"
      by (subst str_nat.simps) simp
    with "1.prems" have "c \<in> set (str_nat (n div 10)) \<or> c = digit_chr (n mod 10)" by auto
    then show ?thesis
    proof
      assume "c \<in> set (str_nat (n div 10))"
      then show ?thesis using "1.IH" False by simp
    next
      assume "c = digit_chr (n mod 10)"
      then show ?thesis by (simp add: is_digit_digit_chr)
    qed
  qed
qed

lemma decimal_snoc: "decimal (ds @ [c]) = 10 * decimal ds + digit_val c"
  by (simp add: decimal_def)

lemma decimal_str_nat: "decimal (str_nat n) = int n"
proof (induction n rule: str_nat.induct)
  case (1 n)
  show ?case
  proof (cases "n < 10")
    case True
    then show ?thesis by (simp add: str_nat_digit decimal_def digit_val_digit_chr)
  next
    case False
    then have s: "str_nat n = str_nat (n div 10) @ [digit_chr (n mod 10)]"
      by (subst str_nat.simps) simp
    have "decimal (str_nat n) = 10 * int (n div 10) + int (n mod 10)"
      using "1.IH" False by (simp add: s decimal_snoc digit_val_digit_chr)
    then show ?thesis by (simp add: zdiv_int zmod_int)
  qed
qed

lemma str_nat_inject: "str_nat a = str_nat b \<Longrightarrow> a = b"
proof -
  assume "str_nat a = str_nat b"
  then have "decimal (str_nat a) = decimal (str_nat b)" by simp
  then show "a = b" by (simp add: decimal_str_nat)
qed

lemma not_digit_colon: "\<not> is_digit CHR '':''" and not_digit_paren: "\<not> is_digit CHR ''(''"
  by (simp_all add: is_digit_def)

lemma digit_not_space: "is_digit c \<Longrightarrow> \<not> isspace c"
  by (auto simp: is_digit_def isspace_def)

lemma space_not_paren: "isspace c \<Longrightarrow> c \<noteq> CHR ''(''"
  by (auto simp: isspace_def)

lemma digit_chr_one: "digit_chr (Suc 0) = CHR ''1''"
  by (simp add: digit_chr_def char_of_eq_iff)

subsection \<open>Splitting a listing line\<close>

lemma takeWhile_upto: "sep \<notin> set a \<Longrightarrow> takeWhile (\<lambda>c. c \<noteq> sep) (a @ sep # b) = a"
  by (induction a) auto

lemma dropWhile_upto: "sep \<notin> set a \<Longrightarrow> dropWhile (\<lambda>c. c \<noteq> sep) (a @ sep # b) = sep # b"
  by (induction a) auto

lemma split_once_at:
  "sep \<notin> set a \<Longrightarrow> split_once sep (a @ sep # b) = [a, b]"
  by (simp add: split_once_def takeWhile_upto dropWhile_upto)

lemma split_chr_not_Nil: "split_chr sep s \<noteq> []"
  by (induction s) (simp_all split: list.splits)

lemma split_chr_hd: "hd (split_chr sep s) = takeWhile (\<lambda>c. c \<noteq> sep) s"
  by (induction s) (auto split: list.splits simp: split_chr_not_Nil)

lemma split_chr_at:
  "sep \<notin> set a \<Longrightarrow> split_chr sep (a @ sep # b) = a # split_chr sep b"
  by (induction a) auto

lemma split_words_from_at:
  "\<forall>c\<in>set d. \<not> isspace c \<Longrightarrow> cur @ d \<noteq> [] \<Longrightarrow> isspace sp \<Longrightarrow>
     split_words_from cur (d @ sp # r) = (cur @ d) # split_words_from [] r"
  by (induction d arbitrary: cur) simp_all

lemma dropWhile_none: "\<forall>c\<in>set d. \<not> P c \<Longrightarrow> dropWhile P d = d"
  by (cases d) simp_all

lemma int_strip_no_space: "\<forall>c\<in>set d. \<not> int_space c \<Longrightarrow> int_strip d = d"
  by (simp add: int_strip_def dropWhile_none)

lemma digit_not_int_space: "is_digit c \<Longrightarrow> \<not> int_space c"
  by (auto simp: is_digit_def int_space_def)

lemma underscores_ok_none: "CHR ''_'' \<notin> set body \<Longrightarrow> underscores_ok body"
  by (induction body rule: underscores_ok.induct) auto

lemma not_digit_signs:
  "\<not> is_digit CHR ''_''" "\<not> is_digit CHR ''-''" "\<not> is_digit CHR ''+''"
  by (simp_all add: is_digit_def)

lemma int_digits_decimal:
  assumes "d \<noteq> []" and "\<forall>c\<in>set d. is_digit c" and "length d \<le> 4300"
  shows "int_digits d = Inr (decimal d)"
proof -
  have f: "filter is_digit d = d" using assms(2) by simp
  have u: "CHR ''_'' \<notin> set d" using assms(2) not_digit_signs(1) by blast
  have h: "hd d \<noteq> CHR ''_''" using assms(1) u by (cases d) auto
  have a: "list_all (\<lambda>c. is_digit c \<or> c = CHR ''_'') d"
    using assms(2) by (simp add: list_all_iff)
  show ?thesis
    using assms(1,3) h a underscores_ok_none [OF u] by (simp add: int_digits_def f)
qed

lemma py_int_decimal:
  assumes "d \<noteq> []" and "\<forall>c\<in>set d. is_digit c" and "length d \<le> 4300"
  shows "py_int d = Inr (decimal d)"
proof -
  have s: "int_strip d = d"
    using assms(2) digit_not_int_space by (intro int_strip_no_space) blast
  obtain c cs where d: "d = c # cs" using assms(1) by (cases d) auto
  have "is_digit c" using assms(2) d by simp
  then have "c \<noteq> CHR ''-''" "c \<noteq> CHR ''+''" using not_digit_signs by auto
  then show ?thesis
    using int_digits_decimal [OF assms] unfolding py_int_def s by (simp add: d)
qed

lemma item_simps:
  "item (x # xs) 0 = Inr x" "item (x # y # xs) (Suc 0) = Inr y" "item (x # y # xs) 1 = Inr y"
  by (simp_all add: item_def)

lemma parse_line_well_formed:
  assumes "CHR '':'' \<notin> set idx" and "CHR ''('' \<notin> set idx" and "CHR ''('' \<notin> set nm"
    and "d \<noteq> []" and "\<forall>c\<in>set d. is_digit c" and "length d \<le> 4300" and "isspace sp"
  shows "parse_line (idx @ CHR '':'' # nm @ CHR ''('' # d @ sp # rest) = Inr (strip nm, decimal d)"
proof -
  let ?ln = "idx @ CHR '':'' # nm @ CHR ''('' # d @ sp # rest"
  have 1: "split_once CHR '':'' ?ln = [idx, nm @ CHR ''('' # d @ sp # rest]"
    using assms(1) by (rule split_once_at)
  have 2: "split_chr CHR ''('' (nm @ CHR ''('' # d @ sp # rest) =
      nm # split_chr CHR ''('' (d @ sp # rest)"
    using assms(3) by (rule split_chr_at)
  have "CHR ''('' \<notin> set (idx @ CHR '':'' # nm)" using assms(2,3) by simp
  then have "split_chr CHR ''('' ((idx @ CHR '':'' # nm) @ CHR ''('' # (d @ sp # rest)) =
      (idx @ CHR '':'' # nm) # split_chr CHR ''('' (d @ sp # rest)"
    by (rule split_chr_at)
  then have 3: "split_chr CHR ''('' ?ln = (idx @ CHR '':'' # nm) # split_chr CHR ''('' (d @ sp # rest)"
    by simp
  obtain w ws where 4: "split_chr CHR ''('' (d @ sp # rest) = w # ws"
    using split_chr_not_Nil by (cases "split_chr CHR ''('' (d @ sp # rest)") auto
  have dp: "\<forall>c\<in>set d. c \<noteq> CHR ''(''" using assms(5) not_digit_paren by blast
  have "w = takeWhile (\<lambda>c. c \<noteq> CHR ''('') (d @ sp # rest)"
    using split_chr_hd [of "CHR ''(''" "d @ sp # rest"] 4 by simp
  also have "\<dots> = d @ sp # takeWhile (\<lambda>c. c \<noteq> CHR ''('') rest"
    using dp space_not_paren [OF assms(7)] by (simp add: takeWhile_append2)
  finally have w: "w = d @ sp # takeWhile (\<lambda>c. c \<noteq> CHR ''('') rest" .
  have ds: "\<forall>c\<in>set d. \<not> isspace c" using assms(5) digit_not_space by blast
  have 5: "split_words w = d # split_words_from [] (takeWhile (\<lambda>c. c \<noteq> CHR ''('') rest)"
    unfolding w split_words_def
    using split_words_from_at [OF ds _ assms(7), of "[]"] assms(4) by simp
  have a: "item (split_once CHR '':'' ?ln) 1 = Inr (nm @ CHR ''('' # d @ sp # rest)"
    unfolding 1 by (rule item_simps)
  have b: "item (split_chr CHR ''('' (nm @ CHR ''('' # d @ sp # rest)) 0 = Inr nm"
    unfolding 2 by (rule item_simps)
  have c: "item (split_chr CHR ''('' ?ln) 1 = Inr w"
    unfolding 3 4 by (rule item_simps)
  have e: "item (split_words w) 0 = Inr d"
    unfolding 5 by (rule item_simps)
  show ?thesis
    unfolding parse_line_def a sum.case b c e Let_def py_int_decimal [OF assms(4,5,6)]
    by (rule refl)
qed

subsection \<open>The loop over the lines\<close>

lemma scan_lines_skip:
  "\<not> startswith g (str_nat (k + 1) @ '':'') \<Longrightarrow>
     scan_lines k label sz (pre @ g # post) = scan_lines k label sz (pre @ post)"
  by (induction pre) simp_all

lemma scan_lines_unmatched:
  "\<forall>ln\<in>set lines. \<not> startswith ln (str_nat (k + 1) @ '':'') \<Longrightarrow>
     scan_lines k label sz lines = (label, sz)"
  by (induction lines) simp_all

lemma scan_lines_first:
  "\<forall>ln\<in>set pre. \<not> startswith ln (str_nat (k + 1) @ '':'') \<Longrightarrow>
   startswith ln (str_nat (k + 1) @ '':'') \<Longrightarrow>
     scan_lines k label sz (pre @ ln # post) =
       (case parse_line ln of Inr (name, s) \<Rightarrow> (name, s) | Inl e \<Rightarrow> (label, sz))"
  by (induction pre) simp_all

lemma startswith_append: "startswith (p @ s) p"
  by (simp add: startswith_def)

lemma slot_rows_skip:
  assumes "\<forall>k<FILE_COUNT. \<not> startswith g (str_nat (k + 1) @ '':'')"
  shows "map (slot_row (pre @ g # post)) [0..<FILE_COUNT] = map (slot_row (pre @ post)) [0..<FILE_COUNT]"
proof (rule map_cong [OF refl])
  fix k assume "k \<in> set [0..<FILE_COUNT]"
  then have "\<not> startswith g (str_nat (k + 1) @ '':'')" using assms by simp
  then show "slot_row (pre @ g # post) k = slot_row (pre @ post) k"
    by (simp add: slot_row_def scan_lines_skip)
qed

lemma startswith_split: "startswith g p \<Longrightarrow> g = p @ drop (length p) g"
proof -
  assume "startswith g p"
  then have "take (length p) g = p" by (simp add: startswith_def)
  then show ?thesis by (metis append_take_drop_id)
qed

lemma sep_prefix_unique:
  assumes "sep \<notin> set A" and "sep \<notin> set B"
    and "startswith g (A @ [sep])" and "startswith g (B @ [sep])"
  shows "A = B"
proof -
  obtain ra where a: "g = A @ sep # ra"
    using startswith_split [OF assms(3)] by simp
  obtain rb where b: "g = B @ sep # rb"
    using startswith_split [OF assms(4)] by simp
  have "takeWhile (\<lambda>c. c \<noteq> sep) g = A" by (subst a) (rule takeWhile_upto [OF assms(1)])
  moreover have "takeWhile (\<lambda>c. c \<noteq> sep) g = B" by (subst b) (rule takeWhile_upto [OF assms(2)])
  ultimately show ?thesis by simp
qed

lemma slot_prefix_unique:
  assumes "startswith g (str_nat a @ '':'')" and "startswith g (str_nat b @ '':'')"
  shows "a = b"
proof -
  have "CHR '':'' \<notin> set (str_nat a)" "CHR '':'' \<notin> set (str_nat b)"
    using str_nat_digits not_digit_colon by blast+
  then have "str_nat a = str_nat b" using assms by (rule sep_prefix_unique)
  then show ?thesis by (rule str_nat_inject)
qed

lemma below_FILE_COUNT: "(\<forall>i<FILE_COUNT. P i) \<longleftrightarrow> P 0 \<and> P 1 \<and> P 2"
proof -
  have "\<And>i::nat. i < 3 \<longleftrightarrow> i = 0 \<or> i = 1 \<or> i = 2" by auto
  then show ?thesis by (auto simp: FILE_COUNT_def)
qed

subsection \<open>The lines of a response\<close>

lemma strip_Nil: "strip [] = []"
  by (simp add: strip_def)

lemma linebreak_LF: "is_linebreak LF" and linebreak_CR: "is_linebreak CR"
  by (simp_all add: is_linebreak_def)

lemma splitlines_from_lf:
  "filter (\<lambda>ln. strip ln \<noteq> []) (splitlines_from cur (t1 @ LF # u)) =
     filter (\<lambda>ln. strip ln \<noteq> []) (splitlines_from cur t1) @
     filter (\<lambda>ln. strip ln \<noteq> []) (splitlines_from [] u)"
proof (induction cur t1 rule: splitlines_from.induct)
  case (1 cur)
  show ?case by (simp add: linebreak_LF strip_Nil)
next
  case (2 cur c cs)
  show ?case
  proof (cases "c = CR")
    case True
    show ?thesis
    proof (cases cs)
      case Nil
      with True show ?thesis by simp
    next
      case (Cons d ds)
      show ?thesis
      proof (cases "d = LF")
        case lf: True
        have "splitlines_from cur ((c # cs) @ LF # u) = cur # splitlines_from [] (ds @ LF # u)"
          using True Cons lf by simp
        moreover have "splitlines_from cur (c # cs) = cur # splitlines_from [] ds"
          using True Cons lf by simp
        ultimately show ?thesis using "2.IH"(1) [OF True Cons lf] by simp
      next
        case nlf: False
        have "splitlines_from cur ((c # cs) @ LF # u) = cur # splitlines_from [] (cs @ LF # u)"
          using True Cons nlf by simp
        moreover have "splitlines_from cur (c # cs) = cur # splitlines_from [] cs"
          using True Cons nlf by simp
        ultimately show ?thesis using "2.IH"(2) [OF True Cons nlf] by simp
      qed
    qed
  next
    case False
    show ?thesis
    proof (cases "is_linebreak c")
      case True
      have "splitlines_from cur ((c # cs) @ LF # u) = cur # splitlines_from [] (cs @ LF # u)"
        using False True by simp
      moreover have "splitlines_from cur (c # cs) = cur # splitlines_from [] cs"
        using False True by simp
      ultimately show ?thesis using "2.IH"(3) [OF False True] by simp
    next
      case nb: False
      have "splitlines_from cur ((c # cs) @ LF # u) = splitlines_from (cur @ [c]) (cs @ LF # u)"
        using False nb by simp
      moreover have "splitlines_from cur (c # cs) = splitlines_from (cur @ [c]) cs"
        using False nb by simp
      ultimately show ?thesis using "2.IH"(4) [OF False nb] by simp
    qed
  qed
qed

lemma splitlines_from_plain:
  "\<forall>c\<in>set g. \<not> is_linebreak c \<Longrightarrow>
     splitlines_from cur g = (if cur @ g = [] then [] else [cur @ g])"
proof (induction g arbitrary: cur)
  case Nil
  show ?case by simp
next
  case (Cons c g)
  then have "c \<noteq> CR" using linebreak_CR by auto
  with Cons show ?case by simp
qed

lemma listing_lines_lf: "listing_lines (t1 @ LF # u) = listing_lines t1 @ listing_lines u"
  by (simp add: listing_lines_def splitlines_def splitlines_from_lf)

lemma listing_lines_plain:
  "\<forall>c\<in>set g. \<not> is_linebreak c \<Longrightarrow>
     listing_lines g = (if strip g = [] then [] else [strip g])"
  by (simp add: listing_lines_def splitlines_def splitlines_from_plain strip_Nil)

lemma listing_lines_insert:
  "\<forall>c\<in>set g. \<not> is_linebreak c \<Longrightarrow>
     listing_lines (t1 @ LF # g @ LF # t2) =
       listing_lines t1 @ (if strip g = [] then [] else [strip g]) @ listing_lines t2"
  by (simp add: listing_lines_lf listing_lines_plain)

subsection \<open>What the client writes and reads\<close>

lemma written_append: "written (xs @ ys) = written xs @ written ys"
  by (induction xs rule: written.induct) simp_all

lemma perform_fields:
  "trace (perform e c) = trace c @ [e]" "ser (perform e c) = ser c"
  "incoming (perform e c) = incoming c" "port (perform e c) = port c"
  "baud (perform e c) = baud c" "timeout (perform e c) = timeout c"
  by (simp_all add: perform_def)

lemma is_open_perform: "is_open (perform e c) = is_open c"
  by (simp add: is_open_def perform_fields)

lemma poll_written:
  "written (trace (snd (poll w buf c))) = written (trace c)"
  by (induction w buf c rule: poll.induct) (simp_all add: perform_fields written_append)

lemma poll_is_open: "is_open (snd (poll w buf c)) = is_open c"
  by (induction w buf c rule: poll.induct) (simp_all add: is_open_perform)

lemma send_line_written:
  "is_open c \<Longrightarrow>
     written (trace (snd (send_line c line))) = written (trace c) @ [encode_utf8 (line @ [LF])]"
  by (simp add: send_line_def Let_def poll_written perform_fields written_append)

lemma is_open_incoming: "is_open (c\<lparr>incoming := x\<rparr>) = is_open c"
  by (simp add: is_open_def)

lemma send_line_is_open: "is_open (snd (send_line c line)) = is_open c"
  by (simp add: send_line_def Let_def poll_is_open is_open_perform is_open_incoming)

lemma send_line_result:
  assumes "is_open c" and "send_line c line = (raw, c1)"
  shows "is_open c1 \<and> written (trace c1) = written (trace c) @ [encode_utf8 (line @ [LF])]"
proof -
  have "c1 = snd (send_line c line)" using assms(2) by simp
  then show ?thesis
    using assms(1) send_line_written [of c line] send_line_is_open [of c line] by simp
qed

lemma insert_slot_client: "client (insert_slot lines a i) = client a"
  by (simp add: insert_slot_def split: prod.splits)

lemma foldl_insert_slot_client: "client (foldl (insert_slot lines) a is) = client a"
  by (induction "is" arbitrary: a) (simp_all add: insert_slot_client)

lemma refresh_files_written:
  assumes "is_open (client a)"
  shows "written (trace (client (refresh_files a))) =
       written (trace (client a)) @ [encode_utf8 (''LIST'' @ [LF])]"
proof -
  obtain raw c1 where s: "send_line (client a) ''LIST'' = (raw, c1)"
    by (cases "send_line (client a) ''LIST''")
  have "client (refresh_files a) = c1"
    using assms s by (simp add: refresh_files_def Let_def foldl_insert_slot_client)
  then show ?thesis using send_line_result [OF assms s] by simp
qed

lemma foldl_insert_slot_tree:
  "tree (foldl (insert_slot lines) a is) = tree a @ map (slot_row lines) is"
  by (induction "is" arbitrary: a) (simp_all add: insert_slot_def)

lemma poll_reply: "fst (poll w buf c) = buf @ concat w"
  by (induction w buf c rule: poll.induct) simp_all

lemma send_line_reply:
  "is_open c \<Longrightarrow> fst (send_line c line) = concat (case incoming c of [] \<Rightarrow> [] | w # ws \<Rightarrow> w)"
  by (simp add: send_line_def Let_def poll_reply perform_fields)

lemma refresh_files_tree:
  assumes "is_open (client a)"
  shows "tree (refresh_files a) =
     map (slot_row (listing_lines (bytes_to_text (fst (send_line (client a) ''LIST'')))))
       [0..<FILE_COUNT]"
proof -
  obtain raw c1 where s: "send_line (client a) ''LIST'' = (raw, c1)"
    by (cases "send_line (client a) ''LIST''")
  show ?thesis
    using assms by (simp add: refresh_files_def s Let_def foldl_insert_slot_tree)
qed

lemma connect_ok:
  "fst (connect c True) = Inr () \<and> is_open (snd (connect c True)) \<and>
   trace (snd (connect c True)) =
     trace c @ (if is_open c then [SerialClose] else []) @
       [SerialOpen (port c) (baud c) (timeout c), Sleep 150, ResetInputBuffer]"
  by (simp add: connect_def close_def Let_def perform_def is_open_def split: option.splits)

lemma connected_app_fields:
  "is_open (client (connected_app sel text dev))"
  "selection (connected_app sel text dev) = sel"
  "editor (connected_app sel text dev) = text"
  "written (trace (client (connected_app sel text dev))) = []"
  using connect_ok [of "SerialClient PORT_DEFAULT dev"]
  by (simp_all add: connected_app_def SerialClient_def is_open_def)

lemma closed_client_not_open: "\<not> is_open (close c)"
  by (simp add: close_def is_open_def Let_def)

subsection \<open>Trailing line feeds\<close>

lemma rstrip_lf_snoc: "rstrip_lf (s @ [LF]) = rstrip_lf s"
  by (simp add: rstrip_lf_def)

lemma rstrip_lf_no_trailing: "rstrip_lf s \<noteq> u @ [LF]"
proof
  assume "rstrip_lf s = u @ [LF]"
  then have "rev (rstrip_lf s) = LF # rev u" by simp
  then have d: "dropWhile (\<lambda>c. c = LF) (rev s) = LF # rev u" by (simp add: rstrip_lf_def)
  then have "dropWhile (\<lambda>c. c = LF) (rev s) \<noteq> []" by simp
  then have "hd (dropWhile (\<lambda>c. c = LF) (rev s)) \<noteq> LF" by (rule hd_dropWhile)
  with d show False by simp
qed

lemma rstrip_lf_replicate:
  "s = rstrip_lf s @ replicate (length s - length (rstrip_lf s)) LF"
proof -
  let ?t = "takeWhile (\<lambda>c. c = LF) (rev s)"
  have "\<forall>y\<in>set ?t. y = LF" by (auto dest: set_takeWhileD)
  then have r: "replicate (length ?t) LF = ?t" by (rule replicate_length_same)
  have "rev s = ?t @ dropWhile (\<lambda>c. c = LF) (rev s)" by simp
  then have "s = rev (dropWhile (\<lambda>c. c = LF) (rev s)) @ rev ?t"
    by (metis rev_append rev_rev_ident)
  then have s: "s = rstrip_lf s @ rev ?t" by (simp add: rstrip_lf_def)
  then have "length s = length (rstrip_lf s) + length ?t"
    by (metis length_append length_rev)
  then have "length s - length (rstrip_lf s) = length ?t" by simp
  moreover have "rev ?t = ?t" using r by (metis rev_replicate)
  ultimately show ?thesis using s r by simp
qed

lemma write_sel:
  assumes "is_open (client a)" and "selection a = Some idx"
  shows "written (trace (client (write_selected a))) =
           written (trace (client a)) @
             [encode_utf8 (''WRITE '' @ str_nat idx @ '' '' @
                 escape_for_arduino (rstrip_lf (editor_get a)) @ [LF]),
              encode_utf8 (''LIST'' @ [LF])]"
proof -
  obtain raw c1 where s: "send_line (client a)
      (''WRITE '' @ str_nat idx @ '' '' @ escape_for_arduino (rstrip_lf (editor_get a))) = (raw, c1)"
    by (cases "send_line (client a)
      (''WRITE '' @ str_nat idx @ '' '' @ escape_for_arduino (rstrip_lf (editor_get a)))")
  have o: "is_open c1" using send_line_result [OF assms(1) s] by simp
  have w: "written (trace c1) = written (trace (client a)) @
      [encode_utf8 ((''WRITE '' @ str_nat idx @ '' '' @
         escape_for_arduino (rstrip_lf (editor_get a))) @ [LF])]"
    using send_line_result [OF assms(1) s] by simp
  have "write_selected a = refresh_files
      (a\<lparr>client := perform (Sleep 20) c1, status := ''Wrote file '' @ str_nat idx\<rparr>)"
    using assms s by (simp add: write_selected_def Let_def)
  then show ?thesis
    using o w by (simp add: refresh_files_written is_open_perform perform_fields written_append)
qed

lemma rename_sel:
  assumes "is_open (client a)" and "selection a = Some idx" and "newname \<noteq> []"
  shows "written (trace (client (rename_selected a (Some newname)))) =
           written (trace (client a)) @
             [encode_utf8 (''WRITE_NAME '' @ str_nat idx @ '' '' @ take 9 newname @ [LF]),
              encode_utf8 (''LIST'' @ [LF])]"
proof -
  let ?line = "''WRITE_NAME '' @ str_nat idx @ '' '' @ take 9 newname"
  obtain raw c1 where s: "send_line (client a) ?line = (raw, c1)"
    by (cases "send_line (client a) ?line")
  have o: "is_open c1" using send_line_result [OF assms(1) s] by simp
  have w: "written (trace c1) = written (trace (client a)) @ [encode_utf8 (?line @ [LF])]"
    using send_line_result [OF assms(1) s] by simp
  have "rename_selected a (Some newname) = refresh_files
      (a\<lparr>client := perform (Sleep 20) c1, status := ''Renamed file '' @ str_nat idx\<rparr>)"
    using assms s by (simp add: rename_selected_def)
  then show ?thesis
    using o w by (simp add: refresh_files_written is_open_perform perform_fields written_append)
qed

subsection \<open>Reading a file back\<close>

lemma bytes_to_text_append: "bytes_to_text (a @ b) = bytes_to_text a @ bytes_to_text b"
  by (simp add: bytes_to_text_def)

lemma encode_utf8_Cons: "encode_utf8 (c # s) = encode_utf8 [c] @ encode_utf8 s"
  by (simp add: encode_utf8_def)

lemma printable_byte:
  assumes "is_printable c"
  shows "bytes_to_text (encode_utf8 [c]) = [c]"
proof -
  let ?n = "of_char c :: nat"
  have n: "32 \<le> ?n" "?n \<le> 126" using assms by (simp_all add: is_printable_def)
  then have "?n mod 2 ^ LENGTH(8) = ?n" by simp
  then have u: "unat (word_of_nat ?n :: byte) = ?n"
    by (simp only: unat_of_nat)
  have e: "encode_utf8 [c] = [word_of_nat ?n]" using n by (simp add: encode_utf8_def Let_def)
  have k: "(32::byte) \<le> word_of_nat ?n \<and> (word_of_nat ?n :: byte) \<le> 126"
    using n u by (simp add: word_le_nat_alt)
  have "chr (word_of_nat ?n) = c" by (simp add: chr_def u)
  then show ?thesis using k by (simp add: e bytes_to_text_def)
qed

lemma printable_bytes:
  "\<forall>c\<in>set s. is_printable c \<Longrightarrow> bytes_to_text (encode_utf8 s) = s"
proof (induction s)
  case Nil
  show ?case by (simp add: encode_utf8_def bytes_to_text_def)
next
  case (Cons c s)
  then have "bytes_to_text (encode_utf8 [c]) = [c]" by (simp add: printable_byte)
  with Cons show ?case
    by (subst encode_utf8_Cons) (simp add: bytes_to_text_append)
qed

lemma printable_escape_chars:
  "is_printable BSL" "is_printable CHR ''n''" "is_printable CHR ''r''"
  by (simp_all add: is_printable_def)

lemma escape_printable:
  "\<forall>c\<in>set s. is_printable c \<or> c = LF \<or> c = CR \<Longrightarrow>
     \<forall>c\<in>set (escape_for_arduino s). is_printable c"
  by (induction s) (auto simp: escape_Nil escape_Cons printable_escape_chars)

lemma read_selected_editor:
  assumes "is_open (client a)" and "selection a = Some idx"
  shows "editor (read_selected a) =
     unescape_from_arduino (bytes_to_text
       (concat (case incoming (client a) of [] \<Rightarrow> [] | w # ws \<Rightarrow> w)))"
proof -
  obtain raw c1 where s: "send_line (client a) (''READ '' @ str_nat idx) = (raw, c1)"
    by (cases "send_line (client a) (''READ '' @ str_nat idx)")
  have r: "raw = concat (case incoming (client a) of [] \<Rightarrow> [] | w # ws \<Rightarrow> w)"
    using send_line_reply [OF assms(1), of "''READ '' @ str_nat idx"] s by simp
  have "editor (read_selected a) = unescape_from_arduino (bytes_to_text raw)"
    using assms s by (simp add: read_selected_def Let_def split: option.splits prod.splits)
  then show ?thesis by (simp add: r)
qed

lemma rstrip_lf_subset: "set (rstrip_lf t) \<subseteq> set t"
proof -
  have "set (dropWhile (\<lambda>c. c = LF) (rev t)) \<subseteq> set (rev t)"
    by (auto dest: set_dropWhileD)
  then show ?thesis by (simp add: rstrip_lf_def)
qed

lemma unescape_list_ends_lf: "\<exists>u. unescape_list (s @ [LF]) = u @ [LF]"
proof (induction s rule: unescape_list.induct)
  case 1
  show ?case by simp
next
  case (2 c)
  show ?case by (cases "c = BSL") (simp_all add: decode_escape_def)
next
  case (3 c d r)
  show ?case
  proof (cases "c = BSL")
    case True
    from "3.IH"(1) [OF True] obtain u where "unescape_list (r @ [LF]) = u @ [LF]" ..
    with True show ?thesis by simp
  next
    case False
    from "3.IH"(2) [OF False] obtain u where "unescape_list ((d # r) @ [LF]) = u @ [LF]" ..
    with False show ?thesis by simp
  qed
qed

lemma bytes_to_text_lf: "bytes_to_text (r @ [10]) = bytes_to_text r @ [LF]"
  by (simp add: bytes_to_text_append) (simp add: bytes_to_text_def chr_def char_of_eq_iff)

subsection \<open>The listing\<close>

text \<open>
  C2, as amended. The listing of the example gives the rows (1, notes, 12 B),
  (2, (empty), 0 B) and (3, todo, 5 B), from the names and sizes (notes, 12),
  ((empty), 0) and (todo, 5). In general \<^verbatim>\<open>refresh_files\<close> on an open connection fills
  the tree with one row for each slot 1 to \<open>FILE_COUNT\<close>, from the lines of the bytes
  received in the read window; a slot with no line that starts with its number and a
  colon shows (empty) and size 0; where the first such line has the form number, colon,
  name, opening parenthesis, decimal digits, white space, the slot shows the name before
  the parenthesis, stripped, and the value of the digits; and where the first such line
  cannot be parsed, the slot shows (empty) and size 0.
\<close>

theorem listing_parse:
  "map (slot_row (listing_lines listing_example)) [0..<FILE_COUNT] =
     [(''1'', ''notes'', ''12 B''), (''2'', ''(empty)'', ''0 B''), (''3'', ''todo'', ''5 B'')] \<and>
   map (\<lambda>i. scan_lines i ''(empty)'' 0 (listing_lines listing_example)) [0..<FILE_COUNT] =
     [(''notes'', 12), (''(empty)'', 0), (''todo'', 5)] \<and>
   (is_open (client a) \<longrightarrow>
      tree (refresh_files a) =
        map (slot_row (listing_lines (bytes_to_text
               (concat (case incoming (client a) of [] \<Rightarrow> [] | w # ws \<Rightarrow> w)))))
          [0..<FILE_COUNT]) \<and>
   ((\<forall>ln\<in>set lines. \<not> startswith ln (str_nat (k + 1) @ '':'')) \<longrightarrow>
      scan_lines k ''(empty)'' 0 lines = (''(empty)'', 0)) \<and>
   ((\<forall>ln\<in>set pre. \<not> startswith ln (str_nat (k + 1) @ '':'')) \<and>
    CHR ''('' \<notin> set nm \<and> d \<noteq> [] \<and> (\<forall>c\<in>set d. is_digit c) \<and> length d \<le> 4300 \<and>
    isspace sp \<longrightarrow>
      scan_lines k label sz
        (pre @ (str_nat (k + 1) @ '':'' @ nm @ ''('' @ d @ sp # rest) # post) =
        (strip nm, decimal d)) \<and>
   ((\<forall>ln\<in>set pre. \<not> startswith ln (str_nat (k + 1) @ '':'')) \<and>
    startswith g (str_nat (k + 1) @ '':'') \<and> parse_line g = Inl e \<longrightarrow>
      scan_lines k ''(empty)'' 0 (pre @ g # post) = (''(empty)'', 0))"
proof (intro conjI impI)
  show "map (slot_row (listing_lines listing_example)) [0..<FILE_COUNT] =
     [(''1'', ''notes'', ''12 B''), (''2'', ''(empty)'', ''0 B''), (''3'', ''todo'', ''5 B'')]"
    by code_simp
  show "map (\<lambda>i. scan_lines i ''(empty)'' 0 (listing_lines listing_example)) [0..<FILE_COUNT] =
     [(''notes'', 12), (''(empty)'', 0), (''todo'', 5)]"
    by code_simp
next
  assume "is_open (client a)"
  then show "tree (refresh_files a) =
        map (slot_row (listing_lines (bytes_to_text
               (concat (case incoming (client a) of [] \<Rightarrow> [] | w # ws \<Rightarrow> w)))))
          [0..<FILE_COUNT]"
    by (simp add: refresh_files_tree send_line_reply)
next
  assume "\<forall>ln\<in>set lines. \<not> startswith ln (str_nat (k + 1) @ '':'')"
  then show "scan_lines k ''(empty)'' 0 lines = (''(empty)'', 0)"
    by (rule scan_lines_unmatched)
next
  assume h: "(\<forall>ln\<in>set pre. \<not> startswith ln (str_nat (k + 1) @ '':'')) \<and>
    CHR ''('' \<notin> set nm \<and> d \<noteq> [] \<and> (\<forall>c\<in>set d. is_digit c) \<and> length d \<le> 4300 \<and>
    isspace sp"
  let ?ln = "str_nat (k + 1) @ CHR '':'' # nm @ CHR ''('' # d @ sp # rest"
  have c: "CHR '':'' \<notin> set (str_nat (k + 1))" "CHR ''('' \<notin> set (str_nat (k + 1))"
    using str_nat_digits not_digit_colon not_digit_paren by blast+
  have p: "parse_line ?ln = Inr (strip nm, decimal d)"
    using c h by (intro parse_line_well_formed) simp_all
  have s: "startswith ?ln (str_nat (k + 1) @ '':'')"
    using startswith_append [of "str_nat (k + 1) @ '':''" "nm @ CHR ''('' # d @ sp # rest"]
    by simp
  have "scan_lines k label sz (pre @ ?ln # post) =
      (case parse_line ?ln of Inr (name, s) \<Rightarrow> (name, s) | Inl e \<Rightarrow> (label, sz))"
    using h s by (intro scan_lines_first) simp_all
  then show "scan_lines k label sz
        (pre @ (str_nat (k + 1) @ '':'' @ nm @ ''('' @ d @ sp # rest) # post) =
        (strip nm, decimal d)"
    using p by simp
next
  assume h: "(\<forall>ln\<in>set pre. \<not> startswith ln (str_nat (k + 1) @ '':'')) \<and>
    startswith g (str_nat (k + 1) @ '':'') \<and> parse_line g = Inl e"
  then have "scan_lines k ''(empty)'' 0 (pre @ g # post) =
      (case parse_line g of Inr (name, s) \<Rightarrow> (name, s) | Inl e \<Rightarrow> (''(empty)'', 0))"
    by (intro scan_lines_first) simp_all
  with h show "scan_lines k ''(empty)'' 0 (pre @ g # post) = (''(empty)'', 0)" by simp
qed

theorem listing_parse_witness:
  "tree (refresh_files (connected_app None []
       [[[], encode_utf8 (take 10 listing_example), [], encode_utf8 (drop 10 listing_example)]])) =
     [(''1'', ''notes'', ''12 B''), (''2'', ''(empty)'', ''0 B''), (''3'', ''todo'', ''5 B'')] \<and>
   scan_lines 1 ''(empty)'' 0 [''1: notes (12 bytes)'', ''3: todo (5 bytes)''] = (''(empty)'', 0) \<and>
   scan_lines 2 ''(empty)'' 0 [''1: notes (12 bytes)'', ''3: todo (5 bytes)''] = (''todo'', 5) \<and>
   scan_lines 1 ''(empty)'' 0 ([''1: notes (12 bytes)''] @ ''2: x (7)'' # [''3: todo (5 bytes)'']) =
     (''(empty)'', 0)"
proof -
  note x = listing_parse [where k = 1 and pre = "[''1: notes (12 bytes)'']" and g = "''2: x (7)''"
      and post = "[''3: todo (5 bytes)'']" and e = ValueError]
  have y: "(\<forall>ln\<in>set [''1: notes (12 bytes)'']. \<not> startswith ln (str_nat (1 + 1) @ '':'')) \<and>
    startswith ''2: x (7)'' (str_nat (1 + 1) @ '':'') \<and> parse_line ''2: x (7)'' = Inl ValueError"
    by code_simp
  have 4: "scan_lines 1 ''(empty)'' 0 ([''1: notes (12 bytes)''] @ ''2: x (7)'' # [''3: todo (5 bytes)'']) =
     (''(empty)'', 0)"
    using x y by blast
  let ?dev = "[[[], encode_utf8 (take 10 listing_example), [], encode_utf8 (drop 10 listing_example)]]"
  let ?a = "connected_app None [] ?dev"
  note t = listing_parse [where a = ?a and k = 1
      and lines = "[''1: notes (12 bytes)'', ''3: todo (5 bytes)'']"]
  note u = listing_parse [where k = 2 and pre = "[''1: notes (12 bytes)'']" and nm = "'' todo ''"
      and d = "''5''" and sp = "CHR '' ''" and rest = "''bytes)''" and post = "[]"
      and label = "''(empty)''" and sz = 0]
  have o: "is_open (client ?a)" by (rule connected_app_fields)
  have e: "map (slot_row (listing_lines (bytes_to_text
               (concat (case incoming (client ?a) of [] \<Rightarrow> [] | w # ws \<Rightarrow> w)))))
          [0..<FILE_COUNT] =
     [(''1'', ''notes'', ''12 B''), (''2'', ''(empty)'', ''0 B''), (''3'', ''todo'', ''5 B'')]"
    by code_simp
  have 1: "tree (refresh_files ?a) =
     [(''1'', ''notes'', ''12 B''), (''2'', ''(empty)'', ''0 B''), (''3'', ''todo'', ''5 B'')]"
    using t o e by simp
  have n: "\<forall>ln\<in>set [''1: notes (12 bytes)'', ''3: todo (5 bytes)''].
      \<not> startswith ln (str_nat (1 + 1) @ '':'')"
    by code_simp
  have 2: "scan_lines 1 ''(empty)'' 0 [''1: notes (12 bytes)'', ''3: todo (5 bytes)''] =
      (''(empty)'', 0)"
    using t n by blast
  have h: "(\<forall>ln\<in>set [''1: notes (12 bytes)'']. \<not> startswith ln (str_nat (2 + 1) @ '':'')) \<and>
    CHR ''('' \<notin> set '' todo '' \<and> ''5'' \<noteq> [] \<and> (\<forall>c\<in>set ''5''. is_digit c) \<and>
    length ''5'' \<le> 4300 \<and> isspace CHR '' ''"
    by code_simp
  have v: "str_nat (2 + 1) @ '':'' @ '' todo '' @ ''('' @ ''5'' @ CHR '' '' # ''bytes)'' =
      ''3: todo (5 bytes)''"
    by code_simp
  have w: "(strip '' todo '', decimal ''5'') = (''todo'', 5)" by code_simp
  have 3: "scan_lines 2 ''(empty)'' 0 [''1: notes (12 bytes)'', ''3: todo (5 bytes)''] =
      (''todo'', 5)"
    using u h unfolding v w by simp
  from 1 2 3 4 show ?thesis by (intro conjI)
qed

text \<open>
  The claim C2 as it is stated, with the size taken from inside the parentheses, fails
  where the closing parenthesis follows the digits directly: for the line 1: a (12) the
  word handed to \<^verbatim>\<open>int\<close> is 12 with the parenthesis, the ValueError is swallowed, and
  slot 1 shows (empty) and 0 B.
\<close>

theorem size_before_closing_parenthesis_is_not_parsed:
  "parse_line ''1: a (12)'' = Inl ValueError \<and>
   scan_lines 0 ''(empty)'' 0 (listing_lines ''1: a (12)'') = (''(empty)'', 0) \<and>
   map (slot_row (listing_lines ''1: a (12)'')) [0..<FILE_COUNT] =
     [(''1'', ''(empty)'', ''0 B''), (''2'', ''(empty)'', ''0 B''), (''3'', ''(empty)'', ''0 B'')]"
  by code_simp

text \<open>
  C5, as amended. A line that does not start with the number of slot \<open>k\<close> and a colon,
  be it unrelated or the line of another slot, well formed or not, never changes what
  the slot \<open>k\<close> shows; a line without line boundary that starts with no slot number and
  colon can be put between the lines of any response without changing any row; and when
  the first line that starts with the number of slot \<open>k\<close> and a colon cannot be parsed,
  the loop ends there without an exception and the slot keeps (empty) and size 0,
  whatever lines follow.
\<close>

theorem listing_skips_other_lines:
  "(\<not> startswith g (str_nat (k + 1) @ '':'') \<longrightarrow>
      scan_lines k label sz (pre @ g # post) = scan_lines k label sz (pre @ post)) \<and>
   (startswith g (str_nat (j + 1) @ '':'') \<and> j \<noteq> k \<longrightarrow>
      scan_lines k label sz (pre @ g # post) = scan_lines k label sz (pre @ post)) \<and>
   ((\<forall>c\<in>set g. \<not> is_linebreak c) \<and>
    (\<forall>i<FILE_COUNT. \<not> startswith (strip g) (str_nat (i + 1) @ '':'')) \<longrightarrow>
      map (slot_row (listing_lines (ta @ LF # g @ LF # tb))) [0..<FILE_COUNT] =
        map (slot_row (listing_lines (ta @ LF # tb))) [0..<FILE_COUNT]) \<and>
   ((\<forall>ln\<in>set pre. \<not> startswith ln (str_nat (k + 1) @ '':'')) \<and>
    startswith g (str_nat (k + 1) @ '':'') \<and> parse_line g = Inl e \<longrightarrow>
      scan_lines k label sz (pre @ g # post) = (label, sz))"
proof (intro conjI impI)
  assume "\<not> startswith g (str_nat (k + 1) @ '':'')"
  then show "scan_lines k label sz (pre @ g # post) = scan_lines k label sz (pre @ post)"
    by (rule scan_lines_skip)
next
  assume h: "startswith g (str_nat (j + 1) @ '':'') \<and> j \<noteq> k"
  have "\<not> startswith g (str_nat (k + 1) @ '':'')"
  proof
    assume "startswith g (str_nat (k + 1) @ '':'')"
    with h have "j + 1 = k + 1" using slot_prefix_unique by blast
    with h show False by simp
  qed
  then show "scan_lines k label sz (pre @ g # post) = scan_lines k label sz (pre @ post)"
    by (rule scan_lines_skip)
next
  assume h: "(\<forall>c\<in>set g. \<not> is_linebreak c) \<and>
    (\<forall>i<FILE_COUNT. \<not> startswith (strip g) (str_nat (i + 1) @ '':''))"
  show "map (slot_row (listing_lines (ta @ LF # g @ LF # tb))) [0..<FILE_COUNT] =
        map (slot_row (listing_lines (ta @ LF # tb))) [0..<FILE_COUNT]"
  proof -
    have i: "listing_lines (ta @ LF # g @ LF # tb) =
        listing_lines ta @ (if strip g = [] then [] else [strip g]) @ listing_lines tb"
      using h by (intro listing_lines_insert) simp
    have l: "listing_lines (ta @ LF # tb) = listing_lines ta @ listing_lines tb"
      by (rule listing_lines_lf)
    show ?thesis
    proof (cases "strip g = []")
      case True
      then show ?thesis unfolding i l by simp
    next
      case False
      have "map (slot_row (listing_lines ta @ strip g # listing_lines tb)) [0..<FILE_COUNT] =
          map (slot_row (listing_lines ta @ listing_lines tb)) [0..<FILE_COUNT]"
        using h by (intro slot_rows_skip) simp
      then show ?thesis unfolding i l using False by simp
    qed
  qed
next
  assume h: "(\<forall>ln\<in>set pre. \<not> startswith ln (str_nat (k + 1) @ '':'')) \<and>
    startswith g (str_nat (k + 1) @ '':'') \<and> parse_line g = Inl e"
  then have "scan_lines k label sz (pre @ g # post) =
      (case parse_line g of Inr (name, s) \<Rightarrow> (name, s) | Inl e \<Rightarrow> (label, sz))"
    by (intro scan_lines_first) simp_all
  with h show "scan_lines k label sz (pre @ g # post) = (label, sz)" by simp
qed

theorem listing_skips_other_lines_witness:
  "map (slot_row (listing_lines (''1: notes (12 bytes)'' @ LF # ''OK'' @ LF # ''3: todo (5 bytes)'')))
       [0..<FILE_COUNT] =
     [(''1'', ''notes'', ''12 B''), (''2'', ''(empty)'', ''0 B''), (''3'', ''todo'', ''5 B'')] \<and>
   scan_lines 0 ''(empty)'' 0 ([] @ ''OK'' # [''1: notes (12 bytes)'']) = (''notes'', 12) \<and>
   scan_lines 0 ''(empty)'' 0 ([] @ ''2: junk'' # [''1: notes (12 bytes)'']) = (''notes'', 12) \<and>
   scan_lines 1 ''(empty)'' 0 ([''1: notes (12 bytes)''] @ ''2: junk'' # [''2: b (2 bytes)'']) =
     (''(empty)'', 0)"
proof -
  note t = listing_skips_other_lines [where g = "''OK''" and k = 0 and label = "''(empty)''"
      and sz = 0 and pre = "[]" and post = "[''1: notes (12 bytes)'']"
      and ta = "''1: notes (12 bytes)''" and tb = "''3: todo (5 bytes)''"]
  note u = listing_skips_other_lines [where g = "''2: junk''" and j = 1 and k = 0
      and label = "''(empty)''" and sz = 0 and pre = "[]" and post = "[''1: notes (12 bytes)'']"]
  note v = listing_skips_other_lines [where g = "''2: junk''" and k = 1
      and label = "''(empty)''" and sz = 0 and pre = "[''1: notes (12 bytes)'']"
      and post = "[''2: b (2 bytes)'']" and e = IndexError]
  have "(\<forall>c\<in>set ''OK''. \<not> is_linebreak c) \<and>
      \<not> startswith (strip ''OK'') (str_nat (0 + 1) @ '':'') \<and>
      \<not> startswith (strip ''OK'') (str_nat (1 + 1) @ '':'') \<and>
      \<not> startswith (strip ''OK'') (str_nat (2 + 1) @ '':'')"
    by code_simp
  then have a: "(\<forall>c\<in>set ''OK''. \<not> is_linebreak c) \<and>
      (\<forall>i<FILE_COUNT. \<not> startswith (strip ''OK'') (str_nat (i + 1) @ '':''))"
    by (simp add: below_FILE_COUNT)
  have b: "map (slot_row (listing_lines (''1: notes (12 bytes)'' @ LF # ''3: todo (5 bytes)'')))
       [0..<FILE_COUNT] =
     [(''1'', ''notes'', ''12 B''), (''2'', ''(empty)'', ''0 B''), (''3'', ''todo'', ''5 B'')]"
    by code_simp
  from t a have "map (slot_row (listing_lines (''1: notes (12 bytes)'' @ LF # ''OK'' @ LF # ''3: todo (5 bytes)'')))
       [0..<FILE_COUNT] =
     map (slot_row (listing_lines (''1: notes (12 bytes)'' @ LF # ''3: todo (5 bytes)'')))
       [0..<FILE_COUNT]"
    by blast
  from this b have 1: "map (slot_row (listing_lines (''1: notes (12 bytes)'' @ LF # ''OK'' @ LF # ''3: todo (5 bytes)'')))
       [0..<FILE_COUNT] =
     [(''1'', ''notes'', ''12 B''), (''2'', ''(empty)'', ''0 B''), (''3'', ''todo'', ''5 B'')]"
    by (rule trans)
  have c: "\<not> startswith ''OK'' (str_nat (0 + 1) @ '':'')" by code_simp
  have d: "scan_lines 0 ''(empty)'' 0 ([] @ [''1: notes (12 bytes)'']) = (''notes'', 12)"
    by code_simp
  from t c have "scan_lines 0 ''(empty)'' 0 ([] @ ''OK'' # [''1: notes (12 bytes)'']) =
      scan_lines 0 ''(empty)'' 0 ([] @ [''1: notes (12 bytes)''])"
    by blast
  from this d have 2: "scan_lines 0 ''(empty)'' 0 ([] @ ''OK'' # [''1: notes (12 bytes)'']) = (''notes'', 12)"
    by (rule trans)
  have f: "startswith ''2: junk'' (str_nat (1 + 1) @ '':'') \<and> (1::nat) \<noteq> 0" by code_simp
  from u f have "scan_lines 0 ''(empty)'' 0 ([] @ ''2: junk'' # [''1: notes (12 bytes)'']) =
      scan_lines 0 ''(empty)'' 0 ([] @ [''1: notes (12 bytes)''])"
    by blast
  from this d have 3: "scan_lines 0 ''(empty)'' 0 ([] @ ''2: junk'' # [''1: notes (12 bytes)'']) = (''notes'', 12)"
    by (rule trans)
  have g: "(\<forall>ln\<in>set [''1: notes (12 bytes)'']. \<not> startswith ln (str_nat (1 + 1) @ '':'')) \<and>
    startswith ''2: junk'' (str_nat (1 + 1) @ '':'') \<and> parse_line ''2: junk'' = Inl IndexError"
    by code_simp
  have 4: "scan_lines 1 ''(empty)'' 0 ([''1: notes (12 bytes)''] @ ''2: junk'' # [''2: b (2 bytes)'']) =
     (''(empty)'', 0)"
    using v g by blast
  from 1 2 3 4 show ?thesis by (intro conjI)
qed

text \<open>
  The claim C5 as it is stated fails: a malformed line for slot 2 that stands before a
  valid line for slot 2 is not skipped. It ends the search for the slot, which shows
  (empty) and 0 B; without the malformed line the slot shows b and 2 B.
\<close>

theorem malformed_line_hides_later_entry:
  "map (slot_row (listing_lines
      (''1: a (1 bytes)'' @ LF # ''2: junk'' @ LF # ''2: b (2 bytes)'' @ LF # ''3: c (3 bytes)'')))
      [0..<FILE_COUNT] =
     [(''1'', ''a'', ''1 B''), (''2'', ''(empty)'', ''0 B''), (''3'', ''c'', ''3 B'')] \<and>
   map (slot_row (listing_lines
      (''1: a (1 bytes)'' @ LF # ''2: b (2 bytes)'' @ LF # ''3: c (3 bytes)'')))
      [0..<FILE_COUNT] =
     [(''1'', ''a'', ''1 B''), (''2'', ''b'', ''2 B''), (''3'', ''c'', ''3 B'')]"
  by code_simp

subsection \<open>Operations without a connection\<close>

text \<open>
  C4. While the connection is not open, each of the five file operations returns with
  the window, the client, the trace of effects and the pending device input all
  unchanged, and \<^verbatim>\<open>send_line\<close> returns the empty byte string and the unchanged client:
  nothing is raised and the port is not touched.
\<close>

theorem no_connection_no_op:
  "\<not> is_open (client a) \<longrightarrow>
     refresh_files a = a \<and> read_selected a = a \<and> write_selected a = a \<and>
     rename_selected a answer = a \<and> delete_selected a yes = a \<and>
     send_line (client a) line = ([], client a)"
  by (simp add: refresh_files_def read_selected_def write_selected_def rename_selected_def
      delete_selected_def send_line_def split: option.splits)

theorem no_connection_no_op_witness:
  "refresh_files (disconnected_app (Some 1) ''hi'' [[[79, 75]]]) =
     disconnected_app (Some 1) ''hi'' [[[79, 75]]] \<and>
   read_selected (disconnected_app (Some 1) ''hi'' [[[79, 75]]]) =
     disconnected_app (Some 1) ''hi'' [[[79, 75]]] \<and>
   write_selected (disconnected_app (Some 1) ''hi'' [[[79, 75]]]) =
     disconnected_app (Some 1) ''hi'' [[[79, 75]]] \<and>
   rename_selected (disconnected_app (Some 1) ''hi'' [[[79, 75]]]) (Some ''new'') =
     disconnected_app (Some 1) ''hi'' [[[79, 75]]] \<and>
   delete_selected (disconnected_app (Some 1) ''hi'' [[[79, 75]]]) True =
     disconnected_app (Some 1) ''hi'' [[[79, 75]]] \<and>
   send_line (client (disconnected_app (Some 1) ''hi'' [[[79, 75]]])) ''LIST'' =
     ([], client (disconnected_app (Some 1) ''hi'' [[[79, 75]]]))"
proof -
  have "\<not> is_open (client (disconnected_app (Some 1) ''hi'' [[[79, 75]]]))"
    by (simp add: disconnected_app_def closed_client_not_open)
  then show ?thesis
    using no_connection_no_op [where a = "disconnected_app (Some 1) ''hi'' [[[79, 75]]]"
        and answer = "Some ''new''" and yes = True and line = "''LIST''"]
    by blast
qed

subsection \<open>Renaming\<close>

text \<open>
  C8, as amended. With an open connection and the slot \<open>idx\<close> selected, for every name
  that is not empty \<^verbatim>\<open>rename_selected\<close> writes the line WRITE_NAME, the index and the
  first 9 characters of the name, and then the line LIST; the name sent has at most 9
  characters, and for verylongfilename it is verylongf.
\<close>

theorem rename_truncates:
  "(is_open (client a) \<and> selection a = Some idx \<and> newname \<noteq> [] \<longrightarrow>
      written (trace (client (rename_selected a (Some newname)))) =
        written (trace (client a)) @
          [encode_utf8 (''WRITE_NAME '' @ str_nat idx @ '' '' @ take 9 newname @ [LF]),
           encode_utf8 (''LIST'' @ [LF])]) \<and>
   length (take 9 newname) \<le> 9 \<and>
   take 9 ''verylongfilename'' = ''verylongf''"
  using rename_sel [of a idx newname] by simp

theorem rename_truncates_witness:
  "written (trace (client (rename_selected (connected_app (Some 1) [] []) (Some ''verylongfilename'')))) =
     [encode_utf8 (''WRITE_NAME 1 verylongf'' @ [LF]), encode_utf8 (''LIST'' @ [LF])]"
  using rename_truncates [of "connected_app (Some 1) [] []" 1 "''verylongfilename''"]
  by (simp add: connected_app_fields str_nat_digit digit_chr_one)

text \<open>
  The claim C8 as it is stated, for every name, fails at the empty name: with an open
  connection and slot 1 selected, \<^verbatim>\<open>rename_selected\<close> returns at
  \<^verbatim>\<open>if not newname: return\<close> and writes no line at all.
\<close>

theorem rename_empty_name_sends_nothing:
  "is_open (client (connected_app (Some 1) [] [])) \<and>
   selection (connected_app (Some 1) [] []) = Some 1 \<and>
   rename_selected (connected_app (Some 1) [] []) (Some []) = connected_app (Some 1) [] [] \<and>
   written (trace (client (rename_selected (connected_app (Some 1) [] []) (Some [])))) = []"
  by (simp add: connected_app_fields rename_selected_def)

subsection \<open>Connecting\<close>

text \<open>
  C9, as amended. \<^verbatim>\<open>connect\<close> first closes the port if a connection is open, then
  opens the port, then waits 150 ms, and then clears the input buffer, in that order;
  after it the connection is open. When the port cannot be opened, the old connection
  is closed all the same and the client is left without a port.
\<close>

theorem connect_order:
  "fst (connect c True) = Inr () \<and> is_open (snd (connect c True)) \<and>
   trace (snd (connect c True)) =
     trace c @ (if is_open c then [SerialClose] else []) @
       [SerialOpen (port c) (baud c) (timeout c), Sleep 150, ResetInputBuffer] \<and>
   fst (connect c False) = Inl SerialException \<and> ser (snd (connect c False)) = None \<and>
   trace (snd (connect c False)) = trace c @ (if is_open c then [SerialClose] else [])"
  by (simp add: connect_def close_def Let_def perform_def is_open_def split: option.splits)

theorem connect_order_witness:
  "trace (snd (connect (snd (connect (SerialClient PORT_DEFAULT []) True)) True)) =
     [SerialOpen ''COM9'' 9600 100, Sleep 150, ResetInputBuffer, SerialClose,
      SerialOpen ''COM9'' 9600 100, Sleep 150, ResetInputBuffer]"
  using connect_order [of "snd (connect (SerialClient PORT_DEFAULT []) True)"]
    connect_order [of "SerialClient PORT_DEFAULT []"]
  by (simp add: SerialClient_def PORT_DEFAULT_def BAUD_def is_open_def connect_def Let_def perform_def)

text \<open>
  The claim C9 as it is stated has the input cleared before the settle delay. On a new
  client for the default port the effects of \<^verbatim>\<open>connect\<close> are: open, sleep 150 ms,
  clear the input buffer.
\<close>

theorem connect_sleeps_before_clearing:
  "trace (snd (connect (SerialClient PORT_DEFAULT []) True)) =
     [SerialOpen ''COM9'' 9600 100, Sleep 150, ResetInputBuffer] \<and>
   trace (snd (connect (SerialClient PORT_DEFAULT []) True)) \<noteq>
     [SerialOpen ''COM9'' 9600 100, ResetInputBuffer, Sleep 150]"
  by (simp add: SerialClient_def PORT_DEFAULT_def BAUD_def connect_def Let_def perform_def)

subsection \<open>Writing\<close>

text \<open>
  C10, as amended. With an open connection and the slot \<open>idx\<close> selected,
  \<^verbatim>\<open>write_selected\<close> writes the line WRITE, the index and the escaped editor text
  without its trailing line feeds, and then the line LIST. The text without its trailing
  line feeds is the same whether or not the line feed that the editor appends is
  counted; the editor text is that text followed by line feeds only; that text does not
  end with a line feed; and unescaping the payload gives that text. So the trailing line
  feeds never reach the device. What \<^verbatim>\<open>read_selected\<close> then puts in the editor is the
  unescaped text of the reply: when the reply is the payload itself, for a text of
  printable characters, line feeds and carriage returns, it is the text without its
  trailing line feeds; when the reply ends with a line feed, the editor text ends with
  a line feed.
\<close>

theorem write_strips_trailing_line_feeds:
  "(is_open (client a) \<and> selection a = Some idx \<longrightarrow>
      written (trace (client (write_selected a))) =
        written (trace (client a)) @
          [encode_utf8 (''WRITE '' @ str_nat idx @ '' '' @
              escape_for_arduino (rstrip_lf (editor_get a)) @ [LF]),
           encode_utf8 (''LIST'' @ [LF])]) \<and>
   rstrip_lf (editor_get a) = rstrip_lf (editor a) \<and>
   editor_get a =
     rstrip_lf (editor_get a) @
       replicate (length (editor_get a) - length (rstrip_lf (editor_get a))) LF \<and>
   (\<forall>u. rstrip_lf (editor_get a) \<noteq> u @ [LF]) \<and>
   unescape_from_arduino (escape_for_arduino (rstrip_lf (editor_get a))) =
     rstrip_lf (editor_get a) \<and>
   (is_open (client b) \<and> selection b = Some idx \<longrightarrow>
      editor (read_selected b) =
        unescape_from_arduino (bytes_to_text
          (concat (case incoming (client b) of [] \<Rightarrow> [] | w # ws \<Rightarrow> w)))) \<and>
   (is_open (client b) \<and> selection b = Some idx \<and>
    (\<forall>c\<in>set (editor_get a). is_printable c \<or> c = LF \<or> c = CR) \<and>
    concat (case incoming (client b) of [] \<Rightarrow> [] | w # ws \<Rightarrow> w) =
      encode_utf8 (escape_for_arduino (rstrip_lf (editor_get a))) \<longrightarrow>
      editor (read_selected b) = rstrip_lf (editor_get a)) \<and>
   (is_open (client b) \<and> selection b = Some idx \<and>
    concat (case incoming (client b) of [] \<Rightarrow> [] | w # ws \<Rightarrow> w) = r @ [10] \<longrightarrow>
      (\<exists>u. editor (read_selected b) = u @ [LF]))"
proof (intro conjI impI allI)
  assume "is_open (client a) \<and> selection a = Some idx"
  then show "written (trace (client (write_selected a))) =
        written (trace (client a)) @
          [encode_utf8 (''WRITE '' @ str_nat idx @ '' '' @
              escape_for_arduino (rstrip_lf (editor_get a)) @ [LF]),
           encode_utf8 (''LIST'' @ [LF])]"
    using write_sel [of a idx] by simp
next
  show "rstrip_lf (editor_get a) = rstrip_lf (editor a)"
    by (simp add: editor_get_def rstrip_lf_snoc)
next
  show "editor_get a =
     rstrip_lf (editor_get a) @
       replicate (length (editor_get a) - length (rstrip_lf (editor_get a))) LF"
    by (rule rstrip_lf_replicate)
next
  fix u show "rstrip_lf (editor_get a) \<noteq> u @ [LF]" by (rule rstrip_lf_no_trailing)
next
  show "unescape_from_arduino (escape_for_arduino (rstrip_lf (editor_get a))) =
     rstrip_lf (editor_get a)"
    by (simp add: unescape_from_arduino_list unescape_list_escape)
next
  assume "is_open (client b) \<and> selection b = Some idx"
  then show "editor (read_selected b) =
        unescape_from_arduino (bytes_to_text
          (concat (case incoming (client b) of [] \<Rightarrow> [] | w # ws \<Rightarrow> w)))"
    using read_selected_editor [of b idx] by simp
next
  assume h: "is_open (client b) \<and> selection b = Some idx \<and>
    (\<forall>c\<in>set (editor_get a). is_printable c \<or> c = LF \<or> c = CR) \<and>
    concat (case incoming (client b) of [] \<Rightarrow> [] | w # ws \<Rightarrow> w) =
      encode_utf8 (escape_for_arduino (rstrip_lf (editor_get a)))"
  have "\<forall>c\<in>set (rstrip_lf (editor_get a)). is_printable c \<or> c = LF \<or> c = CR"
    using h rstrip_lf_subset [of "editor_get a"] by blast
  then have "\<forall>c\<in>set (escape_for_arduino (rstrip_lf (editor_get a))). is_printable c"
    by (rule escape_printable)
  then have p: "bytes_to_text (encode_utf8 (escape_for_arduino (rstrip_lf (editor_get a)))) =
      escape_for_arduino (rstrip_lf (editor_get a))"
    by (rule printable_bytes)
  have "editor (read_selected b) =
      unescape_from_arduino (bytes_to_text
        (encode_utf8 (escape_for_arduino (rstrip_lf (editor_get a)))))"
    using h read_selected_editor [of b idx] by simp
  then show "editor (read_selected b) = rstrip_lf (editor_get a)"
    by (simp add: p unescape_from_arduino_list unescape_list_escape)
next
  assume h: "is_open (client b) \<and> selection b = Some idx \<and>
    concat (case incoming (client b) of [] \<Rightarrow> [] | w # ws \<Rightarrow> w) = r @ [10]"
  then have "editor (read_selected b) = unescape_from_arduino (bytes_to_text (r @ [10]))"
    using read_selected_editor [of b idx] by simp
  then have "editor (read_selected b) = unescape_list (bytes_to_text r @ [LF])"
    by (simp add: bytes_to_text_lf unescape_from_arduino_list)
  then show "\<exists>u. editor (read_selected b) = u @ [LF]"
    using unescape_list_ends_lf [of "bytes_to_text r"] by simp
qed

theorem write_strips_trailing_line_feeds_witness:
  "written (trace (client (write_selected
      (connected_app (Some 2) (''a'' @ [LF] @ ''b'' @ [BSL] @ ''c'' @ [LF, LF]) [])))) =
     [encode_utf8 (''WRITE 2 a'' @ [BSL] @ ''nb'' @ [BSL, BSL] @ ''c'' @ [LF]),
      encode_utf8 (''LIST'' @ [LF])] \<and>
   rstrip_lf (editor_get (connected_app (Some 2) (''a'' @ [LF] @ ''b'' @ [BSL] @ ''c'' @ [LF, LF]) [])) =
     ''a'' @ [LF] @ ''b'' @ [BSL] @ ''c'' \<and>
   editor (read_selected (connected_app (Some 2) []
      [[[], encode_utf8 (''a'' @ [BSL] @ ''nb'' @ [BSL, BSL] @ ''c'')]])) =
     ''a'' @ [LF] @ ''b'' @ [BSL] @ ''c'' \<and>
   (\<exists>u. editor (read_selected (connected_app (Some 2) [] [[[120, 13, 10]]])) = u @ [LF])"
proof -
  let ?a = "connected_app (Some 2) (''a'' @ [LF] @ ''b'' @ [BSL] @ ''c'' @ [LF, LF]) []"
  let ?b = "connected_app (Some 2) []
      [[[], encode_utf8 (''a'' @ [BSL] @ ''nb'' @ [BSL, BSL] @ ''c'')]]"
  let ?c = "connected_app (Some 2) [] [[[120, 13, 10]]]"
  note t = write_strips_trailing_line_feeds [where a = ?a and b = ?b and idx = 2]
  note u = write_strips_trailing_line_feeds [where a = ?a and b = ?c and idx = 2
      and r = "[120, 13]"]
  have s: "rstrip_lf (editor_get ?a) = ''a'' @ [LF] @ ''b'' @ [BSL] @ ''c''"
    by (simp add: connected_app_fields editor_get_def rstrip_lf_def)
  have p: "escape_for_arduino (''a'' @ [LF] @ ''b'' @ [BSL] @ ''c'') =
      ''a'' @ [BSL] @ ''nb'' @ [BSL, BSL] @ ''c''"
    by (simp add: escape_Cons escape_Nil)
  have o: "is_open (client ?a) \<and> selection ?a = Some 2"
    by (simp add: connected_app_fields)
  from t o have w: "written (trace (client (write_selected ?a))) =
        written (trace (client ?a)) @
          [encode_utf8 (''WRITE '' @ str_nat 2 @ '' '' @
              escape_for_arduino (rstrip_lf (editor_get ?a)) @ [LF]),
           encode_utf8 (''LIST'' @ [LF])]"
    by blast
  have 1: "written (trace (client (write_selected ?a))) =
     [encode_utf8 (''WRITE 2 a'' @ [BSL] @ ''nb'' @ [BSL, BSL] @ ''c'' @ [LF]),
      encode_utf8 (''LIST'' @ [LF])]"
    using w unfolding s p
    by (simp add: connected_app_fields str_nat_digit digit_chr_values)
  have h: "is_open (client ?b) \<and> selection ?b = Some 2 \<and>
    (\<forall>c\<in>set (editor_get ?a). is_printable c \<or> c = LF \<or> c = CR) \<and>
    concat (case incoming (client ?b) of [] \<Rightarrow> [] | w # ws \<Rightarrow> w) =
      encode_utf8 (escape_for_arduino (rstrip_lf (editor_get ?a)))"
    unfolding s p by code_simp
  have "editor (read_selected ?b) = rstrip_lf (editor_get ?a)"
    using t h by blast
  then have 3: "editor (read_selected ?b) = ''a'' @ [LF] @ ''b'' @ [BSL] @ ''c''"
    unfolding s .
  have g: "is_open (client ?c) \<and> selection ?c = Some 2 \<and>
    concat (case incoming (client ?c) of [] \<Rightarrow> [] | w # ws \<Rightarrow> w) = [120, 13] @ [10]"
    by code_simp
  have 4: "\<exists>u. editor (read_selected ?c) = u @ [LF]"
    using u g by blast
  from 1 s 3 4 show ?thesis by (intro conjI)
qed

text \<open>
  The claim C10 as it is stated, that a write followed by a read never reproduces the
  trailing line feeds, fails: the editor holds x and a line feed, \<^verbatim>\<open>write_selected\<close>
  sends WRITE 2 x, and when the device answers READ 2 with x, carriage return, line
  feed, \<^verbatim>\<open>bytes_to_text\<close> keeps the line feed and the editor holds x and a line feed
  again.
\<close>

theorem read_after_write_shows_line_feed:
  "editor (connected_app (Some 2) (''x'' @ [LF]) [[[]], [[]], [[120, 13, 10]]]) = ''x'' @ [LF] \<and>
   written (trace (client (write_selected
      (connected_app (Some 2) (''x'' @ [LF]) [[[]], [[]], [[120, 13, 10]]])))) =
     [encode_utf8 (''WRITE 2 x'' @ [LF]), encode_utf8 (''LIST'' @ [LF])] \<and>
   editor (read_selected
      ((write_selected (connected_app (Some 2) (''x'' @ [LF]) [[[]], [[]], [[120, 13, 10]]]))
         \<lparr>selection := Some 2\<rparr>)) = ''x'' @ [LF]"
  by code_simp

end
